theory Spec2Isabelle
  imports Complex_Main
begin

section \<open>Pitch utilities of the tuner\<close>

text \<open>
  The tuner component computes on JavaScript numbers. Finite numbers are modelled as
  exact reals: rounding of IEEE doubles (and of the 32-bit storage of typed arrays),
  overflow and the sign of zero are not represented. The special values that the
  code can produce (NaN, the infinities, and \<open>undefined\<close> read from beyond the end of
  a typed array, which arithmetic turns into NaN) are represented explicitly where they
  can arise.
\<close>

subsection \<open>Note mapper\<close>

definition NOTE_NAMES :: "string list" where
  "NOTE_NAMES = [''C'', ''C#'', ''D'', ''D#'', ''E'', ''F'', ''F#'', ''G'', ''G#'', ''A'', ''A#'', ''B'']"

definition A4_FREQ :: real where
  "A4_FREQ = 440"

text \<open>\<open>Math.round\<close>: the nearest integer, a tie going towards plus infinity.\<close>

definition Math_round :: "real \<Rightarrow> int" where
  "Math_round x = \<lfloor>x + 1 / 2\<rfloor>"

text \<open>The remainder operator \<open>%\<close> on integers: the result has the sign of the dividend.\<close>

definition js_rem :: "int \<Rightarrow> int \<Rightarrow> int" where
  "js_rem a b = sgn a * (\<bar>a\<bar> mod \<bar>b\<bar>)"

text \<open>Decimal rendering of an integer, as a template string prints it.\<close>

fun digits10 :: "nat \<Rightarrow> string" where
  "digits10 n =
     (if n < 10 then [''0123456789'' ! n] else digits10 (n div 10) @ [''0123456789'' ! (n mod 10)])"

definition show_int :: "int \<Rightarrow> string" where
  "show_int i = (if i < 0 then CHR ''-'' # digits10 (nat (- i)) else digits10 (nat i))"

record noteinfo =
  "note" :: string
  octave :: int
  cents :: int
  noteWithOctave :: string

text \<open>
  \<open>freqToNote\<close> for a positive finite frequency whose quotient by \<open>A4_FREQ\<close> is not
  rounded to zero. (For a frequency that is not positive the logarithm of the source is
  NaN or minus infinity; so it is for a positive double of at most 220 * 2 powr (- 1074),
  whose quotient \<open>freq / A4_FREQ\<close> underflows to zero, and the cents value is then NaN.
  The model does not cover those inputs. The meter only calls the function with a
  frequency that \<open>detectPitch\<close> has placed between 60 and 1500.)
\<close>

definition freqToNote :: "real \<Rightarrow> noteinfo" where
  "freqToNote freq =
     (let semitones = 12 * log 2 (freq / A4_FREQ);
          rounded = Math_round semitones;
          cents = Math_round ((semitones - real_of_int rounded) * 100);
          midi = 69 + rounded;
          noteIndex = js_rem (js_rem midi 12 + 12) 12;
          octave = \<lfloor>real_of_int midi / 12\<rfloor> - 1;
          note = NOTE_NAMES ! nat noteIndex
      in \<lparr> note = note, octave = octave, cents = cents,
           noteWithOctave = note @ show_int octave \<rparr>)"

subsection \<open>JavaScript numbers with their special values\<close>

datatype jsnum = Num real | PInf | NInf | NaN

fun jneg :: "jsnum \<Rightarrow> jsnum" where
  "jneg (Num a) = Num (- a)"
| "jneg PInf = NInf"
| "jneg NInf = PInf"
| "jneg NaN = NaN"

fun jadd :: "jsnum \<Rightarrow> jsnum \<Rightarrow> jsnum" where
  "jadd (Num a) (Num b) = Num (a + b)"
| "jadd NaN y = NaN"
| "jadd x NaN = NaN"
| "jadd PInf NInf = NaN"
| "jadd NInf PInf = NaN"
| "jadd PInf y = PInf"
| "jadd NInf y = NInf"
| "jadd (Num a) y = y"

definition jsub :: "jsnum \<Rightarrow> jsnum \<Rightarrow> jsnum" where
  "jsub x y = jadd x (jneg y)"

fun jmul :: "jsnum \<Rightarrow> jsnum \<Rightarrow> jsnum" where
  "jmul (Num a) (Num b) = Num (a * b)"
| "jmul NaN y = NaN"
| "jmul x NaN = NaN"
| "jmul (Num a) y = (if a = 0 then NaN else if 0 < a then y else jneg y)"
| "jmul x (Num b) = (if b = 0 then NaN else if 0 < b then x else jneg x)"
| "jmul PInf y = y"
| "jmul NInf y = jneg y"

fun jdiv :: "jsnum \<Rightarrow> jsnum \<Rightarrow> jsnum" where
  "jdiv (Num a) (Num b) =
     (if b = 0 then (if a = 0 then NaN else if 0 < a then PInf else NInf) else Num (a / b))"
| "jdiv NaN y = NaN"
| "jdiv x NaN = NaN"
| "jdiv (Num a) y = Num 0"
| "jdiv x (Num b) = (if 0 \<le> b then x else jneg x)"
| "jdiv x y = NaN"

fun jlt :: "jsnum \<Rightarrow> jsnum \<Rightarrow> bool" where
  "jlt (Num a) (Num b) = (a < b)"
| "jlt NaN y = False"
| "jlt x NaN = False"
| "jlt x NInf = False"
| "jlt PInf y = False"
| "jlt x y = True"

fun jsqrt :: "jsnum \<Rightarrow> jsnum" where
  "jsqrt (Num a) = (if a < 0 then NaN else Num (sqrt a))"
| "jsqrt PInf = PInf"
| "jsqrt NInf = NaN"
| "jsqrt NaN = NaN"

subsection \<open>Pitch detection\<close>

text \<open>
  What \<open>detectPitch\<close> returns: \<open>null\<close>, a finite number, or NaN. (An infinite
  frequency is never returned: it fails one of the two range comparisons.)
\<close>

datatype pitch = Null | Freq real | FreqNaN

text \<open>The loop that accumulates the squares of the samples.\<close>

function sumsq_loop :: "real list \<Rightarrow> nat \<Rightarrow> real \<Rightarrow> real" where
  "sumsq_loop buf i rms =
     (if i < length buf then sumsq_loop buf (i + 1) (rms + buf ! i * buf ! i) else rms)"
  by pat_completeness auto
termination
  by (relation "measure (\<lambda>(buf, i, rms). length buf - i)") auto

definition rms_of :: "real list \<Rightarrow> jsnum" where
  "rms_of buf = jsqrt (jdiv (Num (sumsq_loop buf 0 0)) (Num (real (length buf))))"

text \<open>
  The inner loop of the difference function. Its bound \<open>i < SIZE / 2\<close> compares with the
  exact half of the length, hence \<open>2 * i < SIZE\<close>. Both reads stay inside the frame for
  every lag of the outer loop (\<open>diff_loop_index_in_range\<close> below).
\<close>

function diff_loop :: "real list \<Rightarrow> nat \<Rightarrow> nat \<Rightarrow> real \<Rightarrow> real" where
  "diff_loop buf tau i diff =
     (if 2 * i < length buf
      then (let delta = buf ! i - buf ! (i + tau)
            in diff_loop buf tau (i + 1) (diff + delta * delta))
      else diff)"
  by pat_completeness auto
termination
  by (relation "measure (\<lambda>(buf, tau, i, diff). length buf - 2 * i)") auto

text \<open>
  The outer loop. A write beyond the end of the typed array is ignored, as is a list
  update beyond the end of the list.
\<close>

function yin_loop :: "real list \<Rightarrow> nat \<Rightarrow> real \<Rightarrow> jsnum list \<Rightarrow> jsnum list" where
  "yin_loop buf tau runningSum yinBuffer =
     (if 2 * tau < length buf
      then (let diff = diff_loop buf tau 0 0;
                runningSum' = runningSum + diff
            in yin_loop buf (tau + 1) runningSum'
                 (yinBuffer[tau := jdiv (Num (diff * real tau)) (Num runningSum')]))
      else yinBuffer)"
  by pat_completeness auto
termination
  by (relation "measure (\<lambda>(buf, tau, runningSum, yinBuffer). length buf - 2 * tau)") auto

text \<open>
  The buffer \<open>new Float32Array(SIZE / 2)\<close> has \<open>SIZE div 2\<close> zero entries; entry 0 is
  set to 1 and the loop fills the rest.
\<close>

definition yin_of :: "real list \<Rightarrow> jsnum list" where
  "yin_of buf = yin_loop buf 1 0 ((replicate (length buf div 2) (Num 0))[0 := Num 1])"

text \<open>Reading a typed array: beyond the end the value is \<open>undefined\<close>, NaN as a number.\<close>

definition yget :: "jsnum list \<Rightarrow> nat \<Rightarrow> jsnum" where
  "yget yinBuffer i = (if i < length yinBuffer then yinBuffer ! i else NaN)"

definition threshold :: real where
  "threshold = 15 / 100"

text \<open>The inner \<open>while\<close> of the search: walking down to the local minimum.\<close>

function walk_min :: "jsnum list \<Rightarrow> nat \<Rightarrow> nat \<Rightarrow> nat" where
  "walk_min yinBuffer SIZE tau =
     (if 2 * (tau + 1) < SIZE \<and> jlt (yget yinBuffer (tau + 1)) (yget yinBuffer tau)
      then walk_min yinBuffer SIZE (tau + 1)
      else tau)"
  by pat_completeness auto
termination
  by (relation "measure (\<lambda>(yinBuffer, SIZE, tau). SIZE - 2 * tau)") auto

text \<open>The outer \<open>while\<close>: the first dip below the threshold, then the walk and \<open>break\<close>.\<close>

function find_dip :: "jsnum list \<Rightarrow> nat \<Rightarrow> nat \<Rightarrow> nat" where
  "find_dip yinBuffer SIZE tau =
     (if 2 * tau < SIZE
      then (if jlt (yget yinBuffer tau) (Num threshold)
            then walk_min yinBuffer SIZE tau
            else find_dip yinBuffer SIZE (tau + 1))
      else tau)"
  by pat_completeness auto
termination
  by (relation "measure (\<lambda>(yinBuffer, SIZE, tau). SIZE - 2 * tau)") auto

text \<open>Parabolic interpolation around \<open>tau\<close>, and the conversion to a frequency.\<close>

definition betterTau_of :: "jsnum list \<Rightarrow> nat \<Rightarrow> jsnum" where
  "betterTau_of yinBuffer tau =
     (let s0 = yget yinBuffer (tau - 1);
          s1 = yget yinBuffer tau;
          s2 = yget yinBuffer (tau + 1)
      in jadd (Num (real tau))
           (jdiv (jsub s2 s0) (jmul (Num 2) (jsub (jsub (jmul (Num 2) s1) s2) s0))))"

text \<open>
  The last two statements: \<open>null\<close> when \<open>freq < 60 || freq > 1500\<close>, else \<open>freq\<close>. Both
  comparisons are false for NaN.
\<close>

definition in_range :: "jsnum \<Rightarrow> pitch" where
  "in_range freq =
     (if jlt freq (Num 60) \<or> jlt (Num 1500) freq then Null
      else (case freq of Num f \<Rightarrow> Freq f | _ \<Rightarrow> FreqNaN))"

definition detectPitch :: "real list \<Rightarrow> real \<Rightarrow> pitch" where
  "detectPitch buf sampleRate =
     (let SIZE = length buf
      in if jlt (rms_of buf) (Num (1 / 100)) then Null
         else (let yinBuffer = yin_of buf;
                   tau = find_dip yinBuffer SIZE 2
               in if 2 * tau = SIZE then Null
                  else in_range (jdiv (Num sampleRate) (betterTau_of yinBuffer tau))))"

text \<open>The value of \<open>runningSum\<close> after the iteration of the outer loop for lag \<open>t\<close>.\<close>

definition running_sum :: "real list \<Rightarrow> nat \<Rightarrow> real" where
  "running_sum buf t = (\<Sum>j = 1..t. diff_loop buf j 0 0)"

subsection \<open>Meter mode: the tuning session\<close>

definition SMOOTHING_SIZE :: nat where
  "SMOOTHING_SIZE = 8"

datatype micState = Idle | Starting | Active

text \<open>
  The state of \<open>MeterMode\<close>: the four pieces of component state and the refs that the
  detection cycle reads. \<open>sampleRate\<close> is the rate of the audio context that
  \<open>startMic\<close> created and that the closure \<open>detect\<close> keeps.
\<close>

record meter =
  micState :: micState
  frequency :: pitch
  noteInfo :: "noteinfo option"
  smoothedCents :: real
  analyserRef :: bool
  bufferRef :: bool
  sampleRate :: real
  centsHistoryRef :: "int list"

definition initial_meter :: meter where
  "initial_meter =
     \<lparr> micState = Idle, frequency = Null, noteInfo = None, smoothedCents = 0,
       analyserRef = False, bufferRef = False, sampleRate = 0, centsHistoryRef = [] \<rparr>"

text \<open>\<open>startMic\<close> up to the \<open>await\<close>, then its two continuations.\<close>

definition startMic_requested :: "meter \<Rightarrow> meter" where
  "startMic_requested st = st\<lparr>micState := Starting\<rparr>"

definition startMic_acquired :: "meter \<Rightarrow> real \<Rightarrow> meter" where
  "startMic_acquired st rate =
     st\<lparr>analyserRef := True, bufferRef := True, sampleRate := rate,
        centsHistoryRef := [], micState := Active\<rparr>"

definition startMic_failed :: "meter \<Rightarrow> meter" where
  "startMic_failed st = st\<lparr>micState := Idle\<rparr>"

text \<open>
  The body of \<open>detect\<close> after the call of \<open>detectPitch\<close>. The test \<open>if (freq)\<close> holds for
  a number that is neither zero nor NaN.
\<close>

definition detect_body :: "meter \<Rightarrow> pitch \<Rightarrow> meter" where
  "detect_body st freq =
     (let st1 = st\<lparr>frequency := freq\<rparr>
      in case freq of
           Freq f \<Rightarrow>
             if f \<noteq> 0
             then (let info = freqToNote f;
                       pushed = centsHistoryRef st1 @ [cents info];
                       history = (if length pushed > SMOOTHING_SIZE then tl pushed else pushed);
                       avg = real_of_int (sum_list history) / real (length history)
                   in st1\<lparr>noteInfo := Some info, centsHistoryRef := history,
                          smoothedCents := avg\<rparr>)
             else st1\<lparr>noteInfo := None\<rparr>
         | _ \<Rightarrow> st1\<lparr>noteInfo := None\<rparr>)"

definition detect :: "meter \<Rightarrow> real list \<Rightarrow> meter" where
  "detect st buf =
     (if \<not> analyserRef st \<or> \<not> bufferRef st then st
      else detect_body st (detectPitch buf (sampleRate st)))"

definition stopMic :: "meter \<Rightarrow> meter" where
  "stopMic st =
     st\<lparr>analyserRef := False, bufferRef := False, centsHistoryRef := [],
        micState := Idle, frequency := Null, noteInfo := None, smoothedCents := 0\<rparr>"

datatype event = Request | Acquired real | Failed | Frame "real list" | Stop

fun step :: "meter \<Rightarrow> event \<Rightarrow> meter" where
  "step st Request = startMic_requested st"
| "step st (Acquired rate) = startMic_acquired st rate"
| "step st Failed = startMic_failed st"
| "step st (Frame buf) = detect st buf"
| "step st Stop = stopMic st"

definition run :: "meter \<Rightarrow> event list \<Rightarrow> meter" where
  "run st evs = foldl step st evs"

subsection \<open>The normalized difference as the specification words it\<close>

text \<open>
  The raw difference \<open>d(\<tau>)\<close> over the first half of the frame, and the cumulative mean
  normalized value \<open>\<tau> \<sdot> d(\<tau>) / (d(1) + \<dots> + d(\<tau>))\<close>, 1 at lag 0. The quotient is the
  quotient of the language, NaN when both sides are zero.
\<close>

definition d_spec :: "real list \<Rightarrow> nat \<Rightarrow> real" where
  "d_spec x \<tau> = (\<Sum>i = 0..<length x div 2. (x ! i - x ! (i + \<tau>))\<^sup>2)"

definition cmnd_spec :: "real list \<Rightarrow> nat \<Rightarrow> jsnum" where
  "cmnd_spec x \<tau> =
     (if \<tau> = 0 then Num 1
      else jdiv (Num (real \<tau> * d_spec x \<tau>)) (Num (\<Sum>j = 1..\<tau>. d_spec x j)))"

subsection \<open>A test frame\<close>

text \<open>
  A frame of \<open>2 * p + 2\<close> samples: an impulse train of period \<open>p\<close>, zero elsewhere. With
  \<open>p = 2047\<close> it has the 4096 samples that the meter requests from the analyser.
\<close>

definition impulse_frame :: "nat \<Rightarrow> real list" where
  "impulse_frame p = map (\<lambda>i. if i = 0 \<or> i = p \<or> i = 2 * p then 1 else 0) [0..<2 * p + 2]"

section \<open>Properties of the note mapper\<close>

lemma js_rem_nonneg: "0 \<le> a \<Longrightarrow> js_rem a 12 = a mod 12"
  by (cases "a = 0") (simp_all add: js_rem_def)

lemma js_rem_neg: "a < 0 \<Longrightarrow> js_rem a 12 = - ((- a) mod 12)"
  by (simp add: js_rem_def)

lemma js_rem_norm: "js_rem (js_rem m 12 + 12) 12 = m mod 12"
proof (cases "0 \<le> m")
  case True
  have "0 \<le> m mod 12" by simp
  then show ?thesis using True by (simp add: js_rem_nonneg)
next
  case False
  have b: "0 \<le> (- m) mod 12" "(- m) mod 12 < 12" by simp_all
  then have "0 \<le> - ((- m) mod 12) + 12" by linarith
  then have "js_rem (- ((- m) mod 12) + 12) 12 = (- ((- m) mod 12) + 12) mod 12"
    by (rule js_rem_nonneg)
  also have "\<dots> = (- ((- m) mod 12)) mod 12" by (metis mod_add_self2)
  also have "\<dots> = (- (- m)) mod 12" by (rule mod_minus_eq)
  finally show ?thesis using False by (simp add: js_rem_neg)
qed

lemma Math_round_residual:
  "- (1 / 2) \<le> x - real_of_int (Math_round x)" "x - real_of_int (Math_round x) < 1 / 2"
  unfolding Math_round_def by linarith+

lemma Math_round_mono: "x \<le> y \<Longrightarrow> Math_round x \<le> Math_round y"
  unfolding Math_round_def by (simp add: floor_mono)

lemma Math_round_of_int [simp]: "Math_round (real_of_int k) = k"
  unfolding Math_round_def by linarith

lemma cents_eq:
  "cents (freqToNote freq) =
     Math_round ((12 * log 2 (freq / 440) - real_of_int (Math_round (12 * log 2 (freq / 440)))) * 100)"
  by (simp add: freqToNote_def Let_def A4_FREQ_def)

lemma note_eq:
  "note (freqToNote freq) = NOTE_NAMES ! nat ((69 + Math_round (12 * log 2 (freq / 440))) mod 12)"
  by (simp add: freqToNote_def Let_def A4_FREQ_def js_rem_norm)

lemma octave_eq:
  "octave (freqToNote freq) = (69 + Math_round (12 * log 2 (freq / 440))) div 12 - 1"
proof -
  have "\<lfloor>real_of_int m / 12\<rfloor> = m div 12" for m :: int
    using floor_divide_of_int_eq[of m 12, where ?'a = real] by simp
  then show ?thesis by (simp add: freqToNote_def Let_def A4_FREQ_def)
qed

text \<open>The index into \<open>NOTE_NAMES\<close> is always one of its twelve positions.\<close>

lemma noteIndex_in_range:
  "0 \<le> js_rem (js_rem m 12 + 12) 12 \<and> nat (js_rem (js_rem m 12 + 12) 12) < length NOTE_NAMES"
  unfolding js_rem_norm by (simp add: NOTE_NAMES_def nat_less_iff)

lemma cents_bounds: "- 50 \<le> cents (freqToNote freq) \<and> cents (freqToNote freq) \<le> 50"
proof -
  define s where "s = 12 * log 2 (freq / 440)"
  have a: "- 50 \<le> (s - real_of_int (Math_round s)) * 100"
    using Math_round_residual(1)[of s] by simp
  have b: "(s - real_of_int (Math_round s)) * 100 \<le> 50"
    using Math_round_residual(2)[of s] by simp
  have "Math_round (real_of_int (- 50)) \<le> Math_round ((s - real_of_int (Math_round s)) * 100)"
    by (rule Math_round_mono) (use a in simp)
  moreover have "Math_round ((s - real_of_int (Math_round s)) * 100) \<le> Math_round (real_of_int 50)"
    by (rule Math_round_mono) (use b in simp)
  ultimately show ?thesis
    unfolding cents_eq s_def[symmetric] Math_round_of_int by simp
qed

text \<open>Bounds on the logarithm of 452.8 / 440 = 283 / 275, by comparing powers.\<close>

lemma pow_8_10_10: "(((x::real)^8)^10)^10 = x^800"
proof -
  have "(800::nat) = 8 * 10 * 10" by simp
  then show ?thesis by (simp only: power_mult)
qed

lemma ratio_pow24: "(283/275::real)^24 < 2"
  by (simp add: power_divide)

lemma ratio_pow8: "(283/275::real)^8 \<ge> 12578/10000"
  by (simp add: power_divide)

lemma mid_pow10: "(12578/10000::real)^10 \<ge> 991/100"
  by (simp add: power_divide)

lemma top_pow10: "(991/100::real)^10 \<ge> 2^33"
  by (simp add: power_divide)

lemma ratio_pow800: "(2::real)^33 \<le> (283/275)^800"
proof -
  have "(2::real)^33 \<le> (991/100)^10" by (rule top_pow10)
  also have "\<dots> \<le> ((12578/10000)^10)^10" by (rule power_mono[OF mid_pow10]) simp
  also have "\<dots> \<le> (((283/275)^8)^10)^10"
    by (intro power_mono ratio_pow8) simp_all
  also have "\<dots> = (283/275)^800" by (rule pow_8_10_10)
  finally show ?thesis .
qed

lemma log_ratio_lower: "33 / 800 \<le> log 2 (283 / 275 :: real)"
proof -
  have "real 33 * log 2 (2::real) = log 2 ((2::real)^33)"
    by (rule log_nat_power[symmetric]) simp
  also have "\<dots> \<le> log 2 ((283/275)^800)"
    using ratio_pow800 by (subst log_le_cancel_iff) simp_all
  also have "\<dots> = real 800 * log 2 (283/275::real)"
    by (rule log_nat_power) simp
  finally show ?thesis by simp
qed

lemma log_ratio_upper: "log 2 (283 / 275 :: real) < 1 / 24"
proof -
  have "real 24 * log 2 (283/275::real) = log 2 ((283/275::real)^24)"
    by (rule log_nat_power[symmetric]) simp
  also have "\<dots> < log 2 2"
    using ratio_pow24 by (subst log_less_cancel_iff) simp_all
  finally show ?thesis by simp
qed

lemma semitones_4528:
  "99 / 200 \<le> 12 * log 2 ((2264 / 5) / 440 :: real)" "12 * log 2 ((2264 / 5) / 440 :: real) < 1 / 2"
proof -
  have e: "(2264 / 5 :: real) / 440 = 283 / 275" by simp
  show "99 / 200 \<le> 12 * log 2 ((2264 / 5) / 440 :: real)"
    unfolding e using log_ratio_lower by simp
  show "12 * log 2 ((2264 / 5) / 440 :: real) < 1 / 2"
    unfolding e using log_ratio_upper by simp
qed

lemma rounded_4528: "Math_round (12 * log 2 ((2264 / 5) / 440)) = 0"
  unfolding Math_round_def using semitones_4528 by linarith

lemma cents_4528: "cents (freqToNote (2264 / 5)) = 50"
proof -
  define s where "s = 12 * log 2 ((2264 / 5) / 440 :: real)"
  have lo: "99 / 200 \<le> s" and hi: "s < 1 / 2"
    using semitones_4528 by (simp_all add: s_def)
  have r0: "Math_round s = 0" unfolding s_def by (rule rounded_4528)
  have "Math_round ((s - real_of_int 0) * 100) = 50"
    unfolding Math_round_def using lo hi by (simp add: floor_eq_iff)
  then have "Math_round ((s - real_of_int (Math_round s)) * 100) = 50"
    by (simp only: r0)
  then show ?thesis unfolding cents_eq s_def .
qed

lemma freqToNote_440:
  "freqToNote 440 = \<lparr> note = ''A'', octave = 4, cents = 0, noteWithOctave = ''A4'' \<rparr>"
  by (simp add: freqToNote_def A4_FREQ_def Math_round_def js_rem_def NOTE_NAMES_def
      show_int_def Let_def)

lemma semitones_quarter_tone: "12 * log 2 (440 * 2 powr (1 / 24) / 440) = (1 / 2 :: real)"
  by simp

lemma freqToNote_quarter_tone:
  "freqToNote (440 * 2 powr (1 / 24)) =
     \<lparr> note = ''A#'', octave = 4, cents = - 50, noteWithOctave = ''A#4'' \<rparr>"
proof -
  have r: "Math_round (1 / 2) = 1" by (simp add: Math_round_def)
  have c: "Math_round ((1 / 2 - real_of_int 1) * 100) = - 50" by (simp add: Math_round_def)
  show ?thesis
    unfolding freqToNote_def A4_FREQ_def Let_def semitones_quarter_tone r c
    by (simp add: js_rem_def NOTE_NAMES_def show_int_def)
qed

text \<open>
  The quotient \<open>freq / A4_FREQ\<close> of doubles is rounded to zero exactly when its value is at
  most 2 powr (- 1075), half the smallest positive double; that is, when \<open>freq\<close> is at most
  220 * 2 powr (- 1074). Above that bound the logarithm is taken of a positive number.
  Every frequency of the detection band is above it.
\<close>

lemma half_subnormal: "220 * 2 powr (- 1074) / 440 = (2::real) powr (- 1075)"
proof -
  have "(2::real) powr (- 1074) = 2 powr (1 + (- 1075))" by simp
  also have "\<dots> = 2 powr 1 * 2 powr (- 1075)" by (rule powr_add)
  finally show ?thesis by simp
qed

lemma quotient_above_half_subnormal:
  assumes "220 * 2 powr (- 1074) < freq"
  shows "2 powr (- 1075) < freq / A4_FREQ"
proof -
  have "220 * 2 powr (- 1074) / 440 < freq / 440"
    using assms by (simp add: divide_strict_right_mono)
  then show ?thesis by (simp only: half_subnormal A4_FREQ_def)
qed

lemma band_above_underflow: "60 \<le> freq \<Longrightarrow> 220 * 2 powr (- 1074) < (freq::real)"
proof -
  assume f: "60 \<le> freq"
  have "(2::real) powr (- 1074) \<le> 2 powr (- 2)" by (rule powr_mono) simp_all
  also have "(2::real) powr (- 2) = inverse (2 powr 2)" by (rule powr_minus)
  also have "\<dots> = 1 / 4" by (simp add: inverse_eq_divide)
  finally have "220 * (2::real) powr (- 1074) \<le> 55" by simp
  with f show ?thesis by linarith
qed

text \<open>
  C2. For a frequency above 220 * 2 powr (- 1074), where the quotient by 440 does not
  underflow to zero, the cents value of \<open>freqToNote\<close> lies between -50 and 50, both ends
  included.
\<close>

theorem cents_closed_range:
  assumes "220 * 2 powr (- 1074) < freq"
  shows "2 powr (- 1075) < freq / A4_FREQ \<and>
         - 50 \<le> cents (freqToNote freq) \<and> cents (freqToNote freq) \<le> 50"
  using quotient_above_half_subnormal[OF assms] cents_bounds[of freq] by simp

theorem cents_closed_range_witness:
  "220 * 2 powr (- 1074) < (440::real) \<and> 2 powr (- 1075) < 440 / A4_FREQ \<and>
   - 50 \<le> cents (freqToNote 440) \<and> cents (freqToNote 440) \<le> 50"
proof -
  have h: "220 * 2 powr (- 1074) < (440::real)" by (rule band_above_underflow) simp
  from cents_closed_range[OF h] h show ?thesis by simp
qed

text \<open>
  C2, as stated, fails: at 452.8 Hz the cents value is +50, outside the half-open range.
\<close>

theorem cents_reaches_50:
  "\<not> cents (freqToNote (2264 / 5)) < 50"
  by (simp add: cents_4528)

text \<open>
  C3. At 440 * 2 powr (1 / 24) Hz, a quarter tone above A4, the semitone count is exactly one half,
  which \<open>Math.round\<close> rounds up: the result is A#4 with -50 cents.
\<close>

theorem quarter_tone_rounds_up:
  "note (freqToNote (440 * 2 powr (1 / 24))) = ''A#'' \<and>
   octave (freqToNote (440 * 2 powr (1 / 24))) = 4 \<and>
   cents (freqToNote (440 * 2 powr (1 / 24))) = - 50"
  by (simp add: freqToNote_quarter_tone)

text \<open>C3, as stated, fails: the result there is not pitch class A with 50 cents.\<close>

theorem quarter_tone_not_A_plus_50:
  "\<not> (note (freqToNote (440 * 2 powr (1 / 24))) = ''A'' \<and>
      cents (freqToNote (440 * 2 powr (1 / 24))) = 50)"
  by (simp add: freqToNote_quarter_tone)

text \<open>
  Two frequencies get the same note name and octave exactly when their semitone counts
  round to the same integer.
\<close>

lemma distinct_NOTE_NAMES: "distinct NOTE_NAMES"
  by (simp add: NOTE_NAMES_def)

lemma same_note_iff:
  "note (freqToNote f1) = note (freqToNote f2) \<and> octave (freqToNote f1) = octave (freqToNote f2)
   \<longleftrightarrow> Math_round (12 * log 2 (f1 / A4_FREQ)) = Math_round (12 * log 2 (f2 / A4_FREQ))"
proof -
  define m1 where "m1 = 69 + Math_round (12 * log 2 (f1 / 440))"
  define m2 where "m2 = 69 + Math_round (12 * log 2 (f2 / 440))"
  have i1: "nat (m1 mod 12) < length NOTE_NAMES" and i2: "nat (m2 mod 12) < length NOTE_NAMES"
    by (simp_all add: NOTE_NAMES_def nat_less_iff)
  have "NOTE_NAMES ! nat (m1 mod 12) = NOTE_NAMES ! nat (m2 mod 12) \<longleftrightarrow> nat (m1 mod 12) = nat (m2 mod 12)"
    using distinct_NOTE_NAMES i1 i2 by (rule nth_eq_iff_index_eq)
  also have "\<dots> \<longleftrightarrow> m1 mod 12 = m2 mod 12" by (rule eq_nat_nat_iff) simp_all
  finally have n: "note (freqToNote f1) = note (freqToNote f2) \<longleftrightarrow> m1 mod 12 = m2 mod 12"
    unfolding note_eq m1_def m2_def .
  have o: "octave (freqToNote f1) = octave (freqToNote f2) \<longleftrightarrow> m1 div 12 = m2 div 12"
    unfolding octave_eq m1_def m2_def by simp
  have "m1 mod 12 = m2 mod 12 \<and> m1 div 12 = m2 div 12 \<longleftrightarrow> m1 = m2"
    by (metis mult_div_mod_eq)
  then show ?thesis unfolding n o by (simp add: m1_def m2_def A4_FREQ_def)
qed



text \<open>C10. At exactly 440 Hz the result is pitch class A, octave 4, 0 cents.\<close>

theorem reference_pitch_A4:
  "note (freqToNote 440) = ''A'' \<and> octave (freqToNote 440) = 4 \<and> cents (freqToNote 440) = 0"
  by (simp add: freqToNote_440)

section \<open>Properties of the pitch detector\<close>

text \<open>
  The loops are unfolded one step at a time in the proofs, and all the way when a concrete
  frame is evaluated.
\<close>

declare sumsq_loop.simps [simp del] diff_loop.simps [simp del] yin_loop.simps [simp del]
  walk_min.simps [simp del] find_dip.simps [simp del]

lemmas frame_eval = sumsq_loop.simps diff_loop.simps yin_loop.simps walk_min.simps find_dip.simps

subsection \<open>The loops in closed form\<close>

lemma sumsq_loop_sum:
  "sumsq_loop buf i acc = acc + (\<Sum>k = i..<length buf. buf ! k * buf ! k)"
proof (induction buf i acc rule: sumsq_loop.induct)
  case (1 buf i rms)
  show ?case
  proof (cases "i < length buf")
    case True
    with 1 show ?thesis
      by (subst sumsq_loop.simps) (simp add: sum.atLeast_Suc_lessThan)
  next
    case False
    then show ?thesis by (subst sumsq_loop.simps) simp
  qed
qed

lemma sumsq_loop_nonneg: "0 \<le> sumsq_loop buf 0 0"
  unfolding sumsq_loop_sum by (simp add: sum_nonneg)

lemma rms_gate:
  assumes "buf \<noteq> []"
  shows "jlt (rms_of buf) (Num (1 / 100)) \<longleftrightarrow> sumsq_loop buf 0 0 / real (length buf) < 1 / 10000"
proof -
  let ?a = "sumsq_loop buf 0 0 / real (length buf)"
  have a: "0 \<le> ?a" using sumsq_loop_nonneg by simp
  have "sqrt ?a < 1 / 100 \<longleftrightarrow> sqrt ?a < sqrt (1 / 10000)"
    by (simp add: real_sqrt_divide)
  also have "\<dots> \<longleftrightarrow> ?a < 1 / 10000" by (rule real_sqrt_less_iff)
  finally show ?thesis using a assms by (simp add: rms_of_def)
qed

lemma diff_loop_sum:
  "diff_loop buf tau i acc =
     acc + (\<Sum>k = i..<((length buf + 1) div 2). (buf ! k - buf ! (k + tau)) * (buf ! k - buf ! (k + tau)))"
proof (induction buf tau i acc rule: diff_loop.induct)
  case (1 buf tau i diff)
  show ?case
  proof (cases "2 * i < length buf")
    case True
    then have "i < ((length buf + 1) div 2)" by linarith
    with 1 True show ?thesis
      by (subst diff_loop.simps) (simp add: Let_def sum.atLeast_Suc_lessThan)
  next
    case False
    then have "((length buf + 1) div 2) \<le> i" by linarith
    with False show ?thesis by (subst diff_loop.simps) simp
  qed
qed

text \<open>The shifted read \<open>buf[i + tau]\<close> never leaves the frame.\<close>

lemma diff_loop_index_in_range:
  "2 * i < length buf \<Longrightarrow> 2 * tau < length buf \<Longrightarrow> i + tau < length (buf :: real list)"
  by linarith

lemma length_yin_loop [simp]: "length (yin_loop buf tau rs yb) = length yb"
proof (induction buf tau rs yb rule: yin_loop.induct)
  case (1 buf tau runningSum yinBuffer)
  then show ?case by (subst yin_loop.simps) (simp add: Let_def)
qed

lemma yget_update: "yget (yb[i := v]) t = (if t = i \<and> i < length yb then v else yget yb t)"
  by (simp add: yget_def)

lemma yget_yin_loop:
  "yget (yin_loop buf tau rs yb) t =
     (if tau \<le> t \<and> 2 * t < length buf \<and> t < length yb
      then jdiv (Num (diff_loop buf t 0 0 * real t)) (Num (rs + (\<Sum>j = tau..t. diff_loop buf j 0 0)))
      else yget yb t)"
proof (induction buf tau rs yb rule: yin_loop.induct)
  case (1 buf tau runningSum yinBuffer)
  show ?case
  proof (cases "2 * tau < length buf")
    case False
    then show ?thesis by (subst yin_loop.simps) auto
  next
    case True
    note IH = 1[OF True refl refl]
    have unf: "yin_loop buf tau runningSum yinBuffer =
        yin_loop buf (tau + 1) (runningSum + diff_loop buf tau 0 0)
          (yinBuffer[tau := jdiv (Num (diff_loop buf tau 0 0 * real tau)) (Num (runningSum + diff_loop buf tau 0 0))])"
      using True by (subst yin_loop.simps) (simp add: Let_def)
    show ?thesis
    proof (cases "tau + 1 \<le> t")
      case True
      then have "(\<Sum>j = tau..t. diff_loop buf j 0 0) = diff_loop buf tau 0 0 + (\<Sum>j = tau + 1..t. diff_loop buf j 0 0)"
        by (simp add: sum.atLeast_Suc_atMost)
      with True show ?thesis unfolding unf IH
        by (simp add: add.assoc yget_update del: jdiv.simps)
    next
      case False
      show ?thesis
      proof (cases "t = tau")
        case True
        then show ?thesis unfolding unf IH using \<open>2 * tau < length buf\<close>
          by (simp add: yget_update del: jdiv.simps)
      next
        case False
        with \<open>\<not> tau + 1 \<le> t\<close> show ?thesis unfolding unf IH
          by (simp add: yget_update del: jdiv.simps)
      qed
    qed
  qed
qed


lemma yget_yin_of:
  assumes "even (length buf)" and "1 \<le> t" and "2 * t < length buf"
  shows "yget (yin_of buf) t =
           jdiv (Num (diff_loop buf t 0 0 * real t)) (Num (\<Sum>j = 1..t. diff_loop buf j 0 0))"
proof -
  from assms have "t < length buf div 2" by (auto elim!: evenE)
  with assms show ?thesis
    unfolding yin_of_def yget_yin_loop by (simp del: jdiv.simps)
qed

lemma yget_yin_of_0:
  assumes "2 \<le> length buf"
  shows "yget (yin_of buf) 0 = Num 1"
proof -
  from assms have "0 < length buf div 2" by simp
  then show ?thesis unfolding yin_of_def yget_yin_loop by (simp add: yget_def)
qed

subsection \<open>The search for the dip\<close>

lemma walk_min_spec:
  "tau \<le> walk_min yb SIZE tau \<and>
   (\<forall>j. tau \<le> j \<and> j < walk_min yb SIZE tau \<longrightarrow>
        2 * (j + 1) < SIZE \<and> jlt (yget yb (j + 1)) (yget yb j)) \<and>
   \<not> (2 * (walk_min yb SIZE tau + 1) < SIZE \<and>
      jlt (yget yb (walk_min yb SIZE tau + 1)) (yget yb (walk_min yb SIZE tau)))"
proof (induction yb SIZE tau rule: walk_min.induct)
  case (1 yb SIZE tau)
  show ?case
  proof (cases "2 * (tau + 1) < SIZE \<and> jlt (yget yb (tau + 1)) (yget yb tau)")
    case False
    then have "walk_min yb SIZE tau = tau" by (subst walk_min.simps) auto
    with False show ?thesis by auto
  next
    case True
    then have e: "walk_min yb SIZE tau = walk_min yb SIZE (tau + 1)"
      by (subst walk_min.simps) simp
    note IH = 1[OF True]
    show ?thesis unfolding e
    proof (intro conjI allI impI)
      show "tau \<le> walk_min yb SIZE (tau + 1)" using IH by linarith
    next
      fix j assume j: "tau \<le> j \<and> j < walk_min yb SIZE (tau + 1)"
      show "2 * (j + 1) < SIZE"
        using j IH True by (cases "j = tau") auto
      show "jlt (yget yb (j + 1)) (yget yb j)"
        using j IH True by (cases "j = tau") auto
    next
      show "\<not> (2 * (walk_min yb SIZE (tau + 1) + 1) < SIZE \<and>
        jlt (yget yb (walk_min yb SIZE (tau + 1) + 1)) (yget yb (walk_min yb SIZE (tau + 1))))"
        using IH by blast
    qed
  qed
qed

lemma walk_min_below_half: "2 * tau < SIZE \<Longrightarrow> 2 * walk_min yb SIZE tau < SIZE"
proof (induction yb SIZE tau rule: walk_min.induct)
  case (1 yb SIZE tau)
  show ?case
  proof (cases "2 * (tau + 1) < SIZE \<and> jlt (yget yb (tau + 1)) (yget yb tau)")
    case False
    then have "walk_min yb SIZE tau = tau" by (subst walk_min.simps) auto
    with 1 show ?thesis by simp
  next
    case True
    then have e: "walk_min yb SIZE tau = walk_min yb SIZE (tau + 1)"
      by (subst walk_min.simps) simp
    show ?thesis unfolding e using 1(1)[OF True] True by simp
  qed
qed

lemma find_dip_found:
  assumes "tau \<le> t0" and "2 * t0 < SIZE" and "jlt (yget yb t0) (Num threshold)"
    and "\<forall>j. tau \<le> j \<and> j < t0 \<longrightarrow> \<not> jlt (yget yb j) (Num threshold)"
  shows "find_dip yb SIZE tau = walk_min yb SIZE t0"
  using assms
proof (induction yb SIZE tau rule: find_dip.induct)
  case (1 yb SIZE tau)
  have lt: "2 * tau < SIZE" using 1(2,3) by linarith
  show ?case
  proof (cases "tau = t0")
    case True
    with 1 lt show ?thesis by (subst find_dip.simps) simp
  next
    case False
    with 1(2) have less: "tau < t0" by simp
    with 1(5) have nb: "\<not> jlt (yget yb tau) (Num threshold)" by simp
    have "find_dip yb SIZE tau = find_dip yb SIZE (tau + 1)"
      using lt nb by (subst find_dip.simps) simp
    also have "\<dots> = walk_min yb SIZE t0"
      using 1(1)[OF lt nb] less 1(3,4,5) by simp
    finally show ?thesis .
  qed
qed

lemma find_dip_none:
  assumes "\<forall>j. tau \<le> j \<and> 2 * j < SIZE \<longrightarrow> \<not> jlt (yget yb j) (Num threshold)"
  shows "find_dip yb SIZE tau = (if 2 * tau < SIZE then (SIZE + 1) div 2 else tau)"
  using assms
proof (induction yb SIZE tau rule: find_dip.induct)
  case (1 yb SIZE tau)
  show ?case
  proof (cases "2 * tau < SIZE")
    case False
    then show ?thesis by (subst find_dip.simps) simp
  next
    case True
    with 1(2) have nb: "\<not> jlt (yget yb tau) (Num threshold)" by simp
    have "find_dip yb SIZE tau = find_dip yb SIZE (tau + 1)"
      using True nb by (subst find_dip.simps) simp
    also have "\<dots> = (if 2 * (tau + 1) < SIZE then (SIZE + 1) div 2 else tau + 1)"
      using 1(1)[OF True nb] 1(2) by simp
    also have "\<dots> = (SIZE + 1) div 2" using True by auto
    finally show ?thesis using True by simp
  qed
qed


lemma sumsq_loop_sum_list: "sumsq_loop buf 0 0 = sum_list (map (\<lambda>x. x * x) buf)"
proof -
  have "sum_list (map (\<lambda>x. x * x) buf) = (\<Sum>k = 0..<length buf. buf ! k * buf ! k)"
    by (simp add: sum_list_sum_nth)
  then show ?thesis by (simp add: sumsq_loop_sum)
qed

lemma diff_loop_d_spec:
  assumes "even (length buf)"
  shows "diff_loop buf t 0 0 = d_spec buf t"
proof -
  from assms have "(length buf + 1) div 2 = length buf div 2" by (auto elim!: evenE)
  then show ?thesis by (simp add: diff_loop_sum d_spec_def power2_eq_square)
qed

lemma yget_cmnd_spec:
  assumes "even (length buf)" and "1 \<le> t" and "2 * t < length buf"
  shows "yget (yin_of buf) t = cmnd_spec buf t"
  using assms
  by (simp add: yget_yin_of diff_loop_d_spec cmnd_spec_def mult.commute del: jdiv.simps)

lemma gate_returns_Null: "jlt (rms_of buf) (Num (1 / 100)) \<Longrightarrow> detectPitch buf sr = Null"
  by (simp add: detectPitch_def)

subsection \<open>What the detector can return\<close>

lemma in_range_cases:
  "in_range freq = Null \<or> in_range freq = FreqNaN \<or> (\<exists>f. in_range freq = Freq f \<and> 60 \<le> f \<and> f \<le> 1500)"
  by (cases freq) (auto simp: in_range_def)

lemma detectPitch_Freq_band:
  assumes "detectPitch buf sr = Freq f"
  shows "60 \<le> f \<and> f \<le> 1500"
proof -
  from assms obtain x where "in_range x = Freq f"
    by (auto simp: detectPitch_def Let_def split: if_splits)
  with in_range_cases[of x] show ?thesis by auto
qed

text \<open>
  When the search stops at the last lag of the buffer, the entry after it is missing and
  the interpolation yields NaN.
\<close>

lemma betterTau_of_NaN: "yget yb (tau + 1) = NaN \<Longrightarrow> betterTau_of yb tau = NaN"
  by (simp add: betterTau_of_def Let_def jsub_def)

lemma half_of_double: "2 * k = (n::nat) \<Longrightarrow> n div 2 = k"
  by auto

lemma double_Suc_neq: "2 * (k + 1) = (n::nat) \<Longrightarrow> 2 * k \<noteq> n"
  by auto

lemma last_lag_NaN:
  assumes "\<not> jlt (rms_of buf) (Num (1 / 100))"
    and "2 * (find_dip (yin_of buf) (length buf) 2 + 1) = length buf"
  shows "detectPitch buf sr = FreqNaN"
proof -
  let ?tau = "find_dip (yin_of buf) (length buf) 2"
  have len: "length (yin_of buf) = length buf div 2" by (simp add: yin_of_def)
  have "length buf div 2 = ?tau + 1" using assms(2) by (rule half_of_double)
  then have "yget (yin_of buf) (?tau + 1) = NaN" by (simp add: yget_def len)
  then have "betterTau_of (yin_of buf) ?tau = NaN" by (rule betterTau_of_NaN)
  moreover from assms(2) have "2 * ?tau \<noteq> length buf" by (rule double_Suc_neq)
  ultimately show ?thesis using assms(1) by (simp add: detectPitch_def Let_def in_range_def)
qed

lemma all_zero_sumsq: "\<forall>x\<in>set buf. x = 0 \<Longrightarrow> sum_list (map (\<lambda>x. x * x) buf) = (0::real)"
  by (induction buf) simp_all

lemma rms_of_nonempty:
  "buf \<noteq> [] \<Longrightarrow> rms_of buf = Num (sqrt (sum_list (map (\<lambda>x. x * x) buf) / real (length buf)))"
proof -
  assume "buf \<noteq> []"
  moreover have "0 \<le> sum_list (map (\<lambda>x. x * x) buf) / real (length buf)"
    using sumsq_loop_nonneg[of buf] by (simp add: sumsq_loop_sum_list)
  ultimately show ?thesis by (simp add: rms_of_def sumsq_loop_sum_list)
qed

text \<open>
  C7. A frame whose root-mean-square amplitude is below 0.01 gets no pitch: the test is the
  first thing \<open>detectPitch\<close> does after computing the amplitude, before the difference
  function. For a frame with at least one sample the amplitude is the real root mean
  square, and a frame of zeros is such a frame.
\<close>

theorem silence_gate:
  "(jlt (rms_of buf) (Num (1 / 100)) \<longrightarrow> detectPitch buf rate = Null) \<and>
   (buf \<noteq> [] \<and> sqrt (sum_list (map (\<lambda>x. x * x) buf) / real (length buf)) < 1 / 100
      \<longrightarrow> detectPitch buf rate = Null) \<and>
   (buf \<noteq> [] \<and> (\<forall>x\<in>set buf. x = 0) \<longrightarrow> detectPitch buf rate = Null)"
proof (intro conjI impI)
  assume "jlt (rms_of buf) (Num (1 / 100))"
  then show "detectPitch buf rate = Null" by (rule gate_returns_Null)
next
  assume "buf \<noteq> [] \<and> sqrt (sum_list (map (\<lambda>x. x * x) buf) / real (length buf)) < 1 / 100"
  then have "jlt (rms_of buf) (Num (1 / 100))" by (simp add: rms_of_nonempty)
  then show "detectPitch buf rate = Null" by (rule gate_returns_Null)
next
  assume "buf \<noteq> [] \<and> (\<forall>x\<in>set buf. x = 0)"
  then have "rms_of buf = Num 0" by (simp add: rms_of_nonempty all_zero_sumsq)
  then have "jlt (rms_of buf) (Num (1 / 100))" by simp
  then show "detectPitch buf rate = Null" by (rule gate_returns_Null)
qed

theorem silence_gate_witness:
  "[0, 0, 0, 0] \<noteq> ([] :: real list) \<and>
   sqrt (sum_list (map (\<lambda>x. x * x) [0, 0, 0, 0]) / real (length [0, 0, 0, 0 :: real])) < 1 / 100 \<and>
   jlt (rms_of [0, 0, 0, 0]) (Num (1 / 100)) \<and>
   detectPitch [0, 0, 0, 0] 44100 = Null"
proof -
  have z: "\<forall>x\<in>set [0, 0, 0, 0 :: real]. x = 0" by simp
  have r: "jlt (rms_of [0, 0, 0, 0]) (Num (1 / 100))" by (simp add: rms_of_nonempty)
  from silence_gate[of "[0, 0, 0, 0]" 44100] z have "detectPitch [0, 0, 0, 0] 44100 = Null"
    by simp
  with r show ?thesis by simp
qed

text \<open>The frame without samples is not stopped by the gate: its amplitude is NaN.\<close>

lemma detectPitch_empty: "detectPitch [] rate = FreqNaN"
  by (simp add: detectPitch_def rms_of_def yin_of_def frame_eval betterTau_of_def in_range_def
      yget_def jsub_def)

text \<open>
  C5. For a frame of even length with at least one sample, the buffer that the detector
  fills holds 1 at lag 0 and, at each lag from 1 to below half the length, the lag times
  the raw difference over the sum of the raw differences up to that lag.
\<close>

theorem normalized_difference:
  assumes "even (length buf)" and "buf \<noteq> []"
  shows "yget (yin_of buf) 0 = Num 1 \<and>
         (\<forall>\<tau>. 1 \<le> \<tau> \<and> 2 * \<tau> < length buf \<longrightarrow>
            yget (yin_of buf) \<tau> = cmnd_spec buf \<tau> \<and>
            ((\<Sum>j = 1..\<tau>. d_spec buf j) \<noteq> 0 \<longrightarrow>
               yget (yin_of buf) \<tau> = Num (real \<tau> * d_spec buf \<tau> / (\<Sum>j = 1..\<tau>. d_spec buf j))))"
proof -
  from assms(1) obtain k where k: "length buf = 2 * k" by (auto elim!: evenE)
  from assms(2) have "length buf \<noteq> 0" by simp
  with k have "k \<noteq> 0" by (intro notI) simp
  with k have "2 \<le> length buf" by simp
  then have z: "yget (yin_of buf) 0 = Num 1" by (rule yget_yin_of_0)
  have "yget (yin_of buf) \<tau> = cmnd_spec buf \<tau> \<and>
        ((\<Sum>j = 1..\<tau>. d_spec buf j) \<noteq> 0 \<longrightarrow>
           yget (yin_of buf) \<tau> = Num (real \<tau> * d_spec buf \<tau> / (\<Sum>j = 1..\<tau>. d_spec buf j)))"
    if "1 \<le> \<tau> \<and> 2 * \<tau> < length buf" for \<tau>
    using that assms(1) by (simp add: yget_cmnd_spec) (simp add: cmnd_spec_def)
  with z show ?thesis by blast
qed

theorem normalized_difference_witness:
  "even (length [1, 0, 0, 1, 0, 0, 1, 0 :: real]) \<and> [1, 0, 0, 1, 0, 0, 1, 0] \<noteq> ([] :: real list) \<and>
   yget (yin_of [1, 0, 0, 1, 0, 0, 1, 0]) 0 = Num 1 \<and>
   (1::nat) \<le> 2 \<and> 2 * 2 < length [1, 0, 0, 1, 0, 0, 1, 0 :: real] \<and>
   (\<Sum>j = 1..2. d_spec [1, 0, 0, 1, 0, 0, 1, 0] j) \<noteq> 0 \<and>
   yget (yin_of [1, 0, 0, 1, 0, 0, 1, 0]) 2 = Num 1"
proof -
  have e: "even (length [1, 0, 0, 1, 0, 0, 1, 0 :: real])" by simp
  have d1: "d_spec [1, 0, 0, 1, 0, 0, 1, 0] 1 = 3"
    unfolding diff_loop_d_spec[OF e, symmetric] by (simp add: frame_eval)
  have d2: "d_spec [1, 0, 0, 1, 0, 0, 1, 0] 2 = 3"
    unfolding diff_loop_d_spec[OF e, symmetric] by (simp add: frame_eval)
  have "{1..2::nat} = {1, 2}" by auto
  then have s: "(\<Sum>j = 1..2. d_spec [1, 0, 0, 1, 0, 0, 1, 0] j) = 6"
    using d1 d2 by simp
  have ne: "[1, 0, 0, 1, 0, 0, 1, 0] \<noteq> ([] :: real list)" by simp
  note t = normalized_difference[OF e ne]
  from t have z: "yget (yin_of [1, 0, 0, 1, 0, 0, 1, 0]) 0 = Num 1" by (rule conjunct1)
  from t have "(1::nat) \<le> 2 \<and> 2 * 2 < length [1, 0, 0, 1, 0, 0, 1, 0 :: real] \<longrightarrow>
            yget (yin_of [1, 0, 0, 1, 0, 0, 1, 0]) 2 = cmnd_spec [1, 0, 0, 1, 0, 0, 1, 0] 2 \<and>
            ((\<Sum>j = 1..2. d_spec [1, 0, 0, 1, 0, 0, 1, 0] j) \<noteq> 0 \<longrightarrow>
               yget (yin_of [1, 0, 0, 1, 0, 0, 1, 0]) 2 =
                 Num (real 2 * d_spec [1, 0, 0, 1, 0, 0, 1, 0] 2 / (\<Sum>j = 1..2. d_spec [1, 0, 0, 1, 0, 0, 1, 0] j)))"
    by blast
  then have "yget (yin_of [1, 0, 0, 1, 0, 0, 1, 0]) 2 = Num 1"
    unfolding s d2 by auto
  with z s show ?thesis by simp
qed

lemma find_dip_no_dip_even:
  assumes "even SIZE" and "4 \<le> SIZE"
    and "\<forall>j. 2 \<le> j \<and> 2 * j < SIZE \<longrightarrow> \<not> jlt (yget yb j) (Num threshold)"
  shows "2 * find_dip yb SIZE 2 = SIZE"
proof -
  from assms(1) obtain k where k: "SIZE = 2 * k" by (auto elim!: evenE)
  have "find_dip yb SIZE 2 = (if 2 * 2 < SIZE then (SIZE + 1) div 2 else 2)"
    using assms(3) by (rule find_dip_none)
  then show ?thesis using assms(2) k by (auto split: if_splits)
qed

text \<open>
  C6. The lag used for the frequency is found by scanning upwards from 2 for the first
  value below the threshold 0.15 and then walking on while the next value is strictly
  smaller; and a frame of even length, at least 4, with no lag below the threshold gets
  no pitch.
\<close>

theorem period_candidate:
  "(let yinBuffer = yin_of buf; SIZE = length buf; tau = find_dip yinBuffer SIZE 2
    in (\<forall>t0. 2 \<le> t0 \<and> 2 * t0 < SIZE \<and> jlt (yget yinBuffer t0) (Num threshold) \<and>
             (\<forall>j. 2 \<le> j \<and> j < t0 \<longrightarrow> \<not> jlt (yget yinBuffer j) (Num threshold)) \<longrightarrow>
          t0 \<le> tau \<and> 2 * tau < SIZE \<and>
          (\<forall>j. t0 \<le> j \<and> j < tau \<longrightarrow> jlt (yget yinBuffer (j + 1)) (yget yinBuffer j)) \<and>
          \<not> (2 * (tau + 1) < SIZE \<and> jlt (yget yinBuffer (tau + 1)) (yget yinBuffer tau)) \<and>
          (\<not> jlt (rms_of buf) (Num (1 / 100)) \<longrightarrow>
             detectPitch buf rate = in_range (jdiv (Num rate) (betterTau_of yinBuffer tau)))) \<and>
       (even SIZE \<and> 4 \<le> SIZE \<and>
          (\<forall>j. 2 \<le> j \<and> 2 * j < SIZE \<longrightarrow> \<not> jlt (yget yinBuffer j) (Num threshold)) \<longrightarrow>
          detectPitch buf rate = Null))"
proof -
  let ?yb = "yin_of buf" and ?N = "length buf"
  let ?tau = "find_dip ?yb ?N 2"
  have found: "t0 \<le> ?tau \<and> 2 * ?tau < ?N \<and>
      (\<forall>j. t0 \<le> j \<and> j < ?tau \<longrightarrow> jlt (yget ?yb (j + 1)) (yget ?yb j)) \<and>
      \<not> (2 * (?tau + 1) < ?N \<and> jlt (yget ?yb (?tau + 1)) (yget ?yb ?tau)) \<and>
      (\<not> jlt (rms_of buf) (Num (1 / 100)) \<longrightarrow>
         detectPitch buf rate = in_range (jdiv (Num rate) (betterTau_of ?yb ?tau)))"
    if h: "2 \<le> t0 \<and> 2 * t0 < ?N \<and> jlt (yget ?yb t0) (Num threshold) \<and>
          (\<forall>j. 2 \<le> j \<and> j < t0 \<longrightarrow> \<not> jlt (yget ?yb j) (Num threshold))" for t0
  proof -
    from h have e: "?tau = walk_min ?yb ?N t0" by (intro find_dip_found) auto
    from h have lt: "2 * ?tau < ?N" unfolding e by (intro walk_min_below_half) simp
    then have "2 * ?tau \<noteq> ?N" by simp
    then have d: "\<not> jlt (rms_of buf) (Num (1 / 100)) \<longrightarrow>
         detectPitch buf rate = in_range (jdiv (Num rate) (betterTau_of ?yb ?tau))"
      by (simp add: detectPitch_def Let_def)
    from walk_min_spec[of t0 ?yb ?N] lt d show ?thesis unfolding e by blast
  qed
  have none: "detectPitch buf rate = Null"
    if h: "even ?N \<and> 4 \<le> ?N \<and> (\<forall>j. 2 \<le> j \<and> 2 * j < ?N \<longrightarrow> \<not> jlt (yget ?yb j) (Num threshold))"
  proof -
    from h have "2 * ?tau = ?N" by (intro find_dip_no_dip_even) auto
    then show ?thesis by (simp add: detectPitch_def Let_def)
  qed
  from found none show ?thesis unfolding Let_def by blast
qed

lemma yin_of_period3:
  "yin_of [1, 0, 0, 1, 0, 0, 1, 0, 0, 1, 0, 0] = [Num 1, Num 1, Num 1, Num 0, Num (4 / 3), Num (5 / 4)]"
  by (simp add: yin_of_def frame_eval)

lemma yin_of_constant:
  "yin_of [1 / 2, 1 / 2, 1 / 2, 1 / 2, 1 / 2, 1 / 2] = [Num 1, NaN, NaN]"
  by (simp add: yin_of_def frame_eval)

lemma detectPitch_period3:
  "detectPitch [1, 0, 0, 1, 0, 0, 1, 0, 0, 1, 0, 0] 3000 = Freq (42000 / 41)"
proof -
  have ne: "[1, 0, 0, 1, 0, 0, 1, 0, 0, 1, 0, 0] \<noteq> ([] :: real list)" by simp
  show ?thesis
    unfolding detectPitch_def rms_gate[OF ne] yin_of_period3
    by (simp add: frame_eval betterTau_of_def in_range_def yget_def threshold_def jsub_def)
qed

theorem period_candidate_witness:
  "(2::nat) \<le> 3 \<and> 2 * 3 < length [1, 0, 0, 1, 0, 0, 1, 0, 0, 1, 0, 0 :: real] \<and>
   jlt (yget (yin_of [1, 0, 0, 1, 0, 0, 1, 0, 0, 1, 0, 0]) 3) (Num threshold) \<and>
   \<not> jlt (yget (yin_of [1, 0, 0, 1, 0, 0, 1, 0, 0, 1, 0, 0]) 2) (Num threshold) \<and>
   3 \<le> find_dip (yin_of [1, 0, 0, 1, 0, 0, 1, 0, 0, 1, 0, 0]) (length [1, 0, 0, 1, 0, 0, 1, 0, 0, 1, 0, 0 :: real]) 2 \<and>
   even (length [1 / 2, 1 / 2, 1 / 2, 1 / 2, 1 / 2, 1 / 2 :: real]) \<and>
   4 \<le> length [1 / 2, 1 / 2, 1 / 2, 1 / 2, 1 / 2, 1 / 2 :: real] \<and>
   \<not> jlt (yget (yin_of [1 / 2, 1 / 2, 1 / 2, 1 / 2, 1 / 2, 1 / 2]) 2) (Num threshold) \<and>
   detectPitch [1 / 2, 1 / 2, 1 / 2, 1 / 2, 1 / 2, 1 / 2] 44100 = Null"
proof -
  let ?A = "[1, 0, 0, 1, 0, 0, 1, 0, 0, 1, 0, 0 :: real]"
  let ?B = "[1 / 2, 1 / 2, 1 / 2, 1 / 2, 1 / 2, 1 / 2 :: real]"
  have a3: "jlt (yget (yin_of ?A) 3) (Num threshold)"
    by (simp add: yin_of_period3 yget_def threshold_def)
  have a2: "\<not> jlt (yget (yin_of ?A) 2) (Num threshold)"
    by (simp add: yin_of_period3 yget_def threshold_def)
  have a2all: "\<forall>j. 2 \<le> j \<and> j < 3 \<longrightarrow> \<not> jlt (yget (yin_of ?A) j) (Num threshold)"
  proof (intro allI impI)
    fix j :: nat assume "2 \<le> j \<and> j < 3"
    then have "j = 2" by simp
    with a2 show "\<not> jlt (yget (yin_of ?A) j) (Num threshold)" by simp
  qed
  have b2: "\<not> jlt (yget (yin_of ?B) 2) (Num threshold)"
    by (simp add: yin_of_constant yget_def)
  have b2all: "\<forall>j. 2 \<le> j \<and> 2 * j < length ?B \<longrightarrow> \<not> jlt (yget (yin_of ?B) j) (Num threshold)"
  proof (intro allI impI)
    fix j :: nat assume "2 \<le> j \<and> 2 * j < length ?B"
    then have "j = 2" by simp
    with b2 show "\<not> jlt (yget (yin_of ?B) j) (Num threshold)" by simp
  qed
  have "3 \<le> find_dip (yin_of ?A) (length ?A) 2"
    using period_candidate[of ?A 3000] a3 a2all unfolding Let_def by simp
  moreover have "detectPitch ?B 44100 = Null"
    using period_candidate[of ?B 44100] b2all unfolding Let_def by simp
  ultimately show ?thesis using a3 a2 b2 by simp
qed

subsection \<open>The interpolation away from the end of the buffer\<close>

text \<open>
  When the entry after the dip exists, the three values around the dip are numbers, the
  middle one strictly below the first and not above the third; the refined lag is then
  within half a sample of the dip and the frequency is a number. So NaN is returned only
  from the last lag of the buffer.
\<close>

lemma diff_loop_nonneg: "0 \<le> diff_loop buf t 0 0"
  unfolding diff_loop_sum by (simp add: sum_nonneg)

lemma running_sum_nonneg: "0 \<le> running_sum buf t"
  unfolding running_sum_def by (simp add: sum_nonneg diff_loop_nonneg)

lemma running_sum_Suc: "running_sum buf (Suc t) = running_sum buf t + diff_loop buf (Suc t) 0 0"
  unfolding running_sum_def by simp

lemma running_sum_mono: "t \<le> u \<Longrightarrow> running_sum buf t \<le> running_sum buf u"
proof (induction u)
  case 0
  then show ?case by simp
next
  case (Suc u)
  show ?case
  proof (cases "t = Suc u")
    case True
    then show ?thesis by simp
  next
    case False
    with Suc have "running_sum buf t \<le> running_sum buf u" by simp
    also have "\<dots> \<le> running_sum buf (Suc u)" using diff_loop_nonneg[of buf "Suc u"] by (simp add: running_sum_Suc)
    finally show ?thesis .
  qed
qed

lemma diff_le_running_sum: "1 \<le> t \<Longrightarrow> diff_loop buf t 0 0 \<le> running_sum buf t"
proof -
  assume "1 \<le> t"
  then obtain q where q: "t = Suc q" by (cases t) auto
  show ?thesis unfolding q running_sum_Suc using running_sum_nonneg[of buf q] by simp
qed

lemma yget_running_sum:
  assumes "even (length buf)" and "1 \<le> t" and "2 * t < length buf"
  shows "yget (yin_of buf) t = jdiv (Num (diff_loop buf t 0 0 * real t)) (Num (running_sum buf t))"
  unfolding running_sum_def using assms by (rule yget_yin_of)

lemma yget_Num_if_running_sum_pos:
  assumes "even (length buf)" and "1 \<le> t" and "2 * t < length buf" and "0 < running_sum buf t"
  shows "yget (yin_of buf) t = Num (diff_loop buf t 0 0 * real t / running_sum buf t)"
    and "0 \<le> diff_loop buf t 0 0 * real t / running_sum buf t"
proof -
  show "yget (yin_of buf) t = Num (diff_loop buf t 0 0 * real t / running_sum buf t)"
    using assms(4) unfolding yget_running_sum[OF assms(1,2,3)] by simp
  show "0 \<le> diff_loop buf t 0 0 * real t / running_sum buf t"
    using assms(4) diff_loop_nonneg[of buf t] by simp
qed

lemma below_running_sum_pos:
  assumes "even (length buf)" and "1 \<le> t" and "2 * t < length buf"
    and "jlt (yget (yin_of buf) t) (Num c)"
  shows "0 < running_sum buf t"
proof (rule ccontr)
  assume "\<not> 0 < running_sum buf t"
  with running_sum_nonneg[of buf t] have z: "running_sum buf t = 0" by simp
  with diff_le_running_sum[OF assms(2), of buf] diff_loop_nonneg[of buf t]
  have "diff_loop buf t 0 0 = 0" by simp
  with z have "yget (yin_of buf) t = NaN" unfolding yget_running_sum[OF assms(1,2,3)] by simp
  with assms(4) show False by simp
qed

lemma below_prev_running_sum_pos:
  assumes "even (length buf)" and "1 \<le> t" and "2 * Suc t < length buf"
    and "jlt (yget (yin_of buf) (Suc t)) (Num threshold)"
  shows "0 < running_sum buf t"
proof (rule ccontr)
  assume "\<not> 0 < running_sum buf t"
  with running_sum_nonneg[of buf t] have z: "running_sum buf t = 0" by simp
  have y: "yget (yin_of buf) (Suc t)
      = jdiv (Num (diff_loop buf (Suc t) 0 0 * real (Suc t))) (Num (diff_loop buf (Suc t) 0 0))"
    using yget_running_sum[OF assms(1) _ assms(3)] by (simp add: running_sum_Suc z)
  show False
  proof (cases "diff_loop buf (Suc t) 0 0 = 0")
    case True
    with y assms(4) show False by simp
  next
    case False
    with y have "yget (yin_of buf) (Suc t) = Num (real (Suc t))" by simp
    with assms(2,4) show False by (simp add: threshold_def)
  qed
qed

lemma find_dip_below_half_found:
  assumes "2 * find_dip yb SIZE tau < SIZE"
  shows "\<exists>t0. tau \<le> t0 \<and> 2 * t0 < SIZE \<and> jlt (yget yb t0) (Num threshold) \<and>
           (\<forall>j. tau \<le> j \<and> j < t0 \<longrightarrow> \<not> jlt (yget yb j) (Num threshold)) \<and>
           find_dip yb SIZE tau = walk_min yb SIZE t0"
proof (cases "\<exists>j. tau \<le> j \<and> 2 * j < SIZE \<and> jlt (yget yb j) (Num threshold)")
  case False
  then have "find_dip yb SIZE tau = (if 2 * tau < SIZE then (SIZE + 1) div 2 else tau)"
    by (intro find_dip_none) blast
  with assms show ?thesis by (auto split: if_splits)
next
  case True
  define P where "P j \<longleftrightarrow> tau \<le> j \<and> 2 * j < SIZE \<and> jlt (yget yb j) (Num threshold)" for j
  from True have ex: "\<exists>j. P j" by (simp add: P_def)
  define t0 where "t0 = (LEAST j. P j)"
  from ex have p: "P t0" unfolding t0_def by (metis LeastI)
  have least: "\<not> P j" if "j < t0" for j
    using that unfolding t0_def by (rule not_less_Least)
  have nb: "\<forall>j. tau \<le> j \<and> j < t0 \<longrightarrow> \<not> jlt (yget yb j) (Num threshold)"
  proof (intro allI impI)
    fix j assume j: "tau \<le> j \<and> j < t0"
    with p have "2 * j < SIZE" by (simp add: P_def)
    with j least[of j] show "\<not> jlt (yget yb j) (Num threshold)" by (simp add: P_def)
  qed
  from p have a: "tau \<le> t0" "2 * t0 < SIZE" "jlt (yget yb t0) (Num threshold)"
    by (simp_all add: P_def)
  from find_dip_found[OF a nb] a nb show ?thesis by blast
qed

text \<open>A value of the buffer that is smaller than a number is itself a number.\<close>

lemma jlt_Num_cases:
  assumes "jlt x (Num a)"
  shows "x = NInf \<or> (\<exists>b. x = Num b \<and> b < a)"
  using assms by (cases x) simp_all

lemma jlt_from_Num_cases:
  assumes "jlt (Num a) y"
  shows "y = PInf \<or> (\<exists>b. y = Num b \<and> a < b)"
  using assms by (cases y) simp_all

lemma yget_shape:
  assumes "even (length buf)" and "1 \<le> t" and "2 * t < length buf"
  shows "yget (yin_of buf) t = NaN \<or> (\<exists>a. yget (yin_of buf) t = Num a \<and> 0 \<le> a)"
proof (cases "0 < running_sum buf t")
  case True
  from yget_Num_if_running_sum_pos[OF assms True] show ?thesis by blast
next
  case False
  with running_sum_nonneg[of buf t] have z: "running_sum buf t = 0" by simp
  with diff_le_running_sum[OF assms(2), of buf] diff_loop_nonneg[of buf t]
  have "diff_loop buf t 0 0 = 0" by simp
  with z show ?thesis unfolding yget_running_sum[OF assms] by simp
qed

text \<open>All along the walk the values stay below the threshold.\<close>

lemma walk_stays_below:
  assumes ev: "even (length buf)" and "1 \<le> t0" and "2 * t0 < length buf"
    and "\<exists>a. yget (yin_of buf) t0 = Num a \<and> a < c"
  shows "\<exists>a. yget (yin_of buf) (walk_min (yin_of buf) (length buf) t0) = Num a \<and> a < c"
  using assms(2-)
proof (induction "yin_of buf" "length buf" t0 rule: walk_min.induct)
  case (1 tau)
  show ?case
  proof (cases "2 * (tau + 1) < length buf \<and> jlt (yget (yin_of buf) (tau + 1)) (yget (yin_of buf) tau)")
    case False
    then have "walk_min (yin_of buf) (length buf) tau = tau" by (subst walk_min.simps) auto
    with 1(4) show ?thesis by simp
  next
    case True
    then have e: "walk_min (yin_of buf) (length buf) tau = walk_min (yin_of buf) (length buf) (tau + 1)"
      by (subst walk_min.simps) simp
    from 1(4) obtain a where a: "yget (yin_of buf) tau = Num a" "a < c" by blast
    from True have "jlt (yget (yin_of buf) (tau + 1)) (Num a)" by (simp add: a)
    from jlt_Num_cases[OF this] yget_shape[OF ev, of "tau + 1"] True
    have "\<exists>b. yget (yin_of buf) (tau + 1) = Num b \<and> b < a" by auto
    with a(2) have "\<exists>b. yget (yin_of buf) (tau + 1) = Num b \<and> b < c" by auto
    from 1(1)[OF True _ _ this] True show ?thesis unfolding e by simp
  qed
qed

lemma shift_bounds:
  fixes a0 a1 a2 :: real
  assumes "a1 < a0" and "a1 \<le> a2"
  shows "2 * (2 * a1 - a2 - a0) \<noteq> 0"
    and "- (1 / 2) \<le> (a2 - a0) / (2 * (2 * a1 - a2 - a0))"
    and "(a2 - a0) / (2 * (2 * a1 - a2 - a0)) \<le> 1 / 2"
proof -
  have den: "2 * (2 * a1 - a2 - a0) < 0" using assms by simp
  then show "2 * (2 * a1 - a2 - a0) \<noteq> 0" by simp
  have "a2 - a0 \<le> - (1 / 2) * (2 * (2 * a1 - a2 - a0))" using assms by argo
  then show "- (1 / 2) \<le> (a2 - a0) / (2 * (2 * a1 - a2 - a0))"
    using den by (simp only: neg_le_divide_eq)
  have "1 / 2 * (2 * (2 * a1 - a2 - a0)) \<le> a2 - a0" using assms by argo
  then show "(a2 - a0) / (2 * (2 * a1 - a2 - a0)) \<le> 1 / 2"
    using den by (simp only: neg_divide_le_eq)
qed

lemma betterTau_of_Num:
  assumes "yget yb (tau - 1) = Num a0" and "yget yb tau = Num a1" and "yget yb (tau + 1) = Num a2"
    and "a1 < a0" and "a1 \<le> a2"
  shows "betterTau_of yb tau = Num (real tau + (a2 - a0) / (2 * (2 * a1 - a2 - a0)))"
  unfolding betterTau_of_def Let_def assms(1,2,3) jsub_def
  using shift_bounds(1)[OF assms(4,5)] by simp

lemma in_range_Num:
  "in_range (Num x) = Null \<or> (\<exists>f. in_range (Num x) = Freq f \<and> 60 \<le> f \<and> f \<le> 1500)"
  by (auto simp: in_range_def)

lemma interpolation_inside:
  assumes ev: "even (length buf)"
    and inside: "2 * (find_dip (yin_of buf) (length buf) 2 + 1) < length buf"
  shows "2 \<le> find_dip (yin_of buf) (length buf) 2 \<and>
         (\<exists>a0 a1 a2. yget (yin_of buf) (find_dip (yin_of buf) (length buf) 2 - 1) = Num a0 \<and>
           yget (yin_of buf) (find_dip (yin_of buf) (length buf) 2) = Num a1 \<and>
           yget (yin_of buf) (find_dip (yin_of buf) (length buf) 2 + 1) = Num a2 \<and>
           a1 < a0 \<and> a1 \<le> a2)"
proof -
  let ?yb = "yin_of buf" and ?N = "length buf"
  let ?tau = "find_dip ?yb ?N 2"
  from inside have lt: "2 * ?tau < ?N" by simp
  from find_dip_below_half_found[OF lt] obtain t0 where
    t0: "2 \<le> t0" "2 * t0 < ?N" "jlt (yget ?yb t0) (Num threshold)"
    and first: "\<forall>j. 2 \<le> j \<and> j < t0 \<longrightarrow> \<not> jlt (yget ?yb j) (Num threshold)"
    and e: "?tau = walk_min ?yb ?N t0" by blast
  from t0(1) have t01: "1 \<le> t0" by simp
  from jlt_Num_cases[OF t0(3)] yget_shape[OF ev t01 t0(2)]
  have b0: "\<exists>a. yget ?yb t0 = Num a \<and> a < threshold" by auto
  from walk_stays_below[OF ev t01 t0(2) b0] obtain a1 where
    a1: "yget ?yb ?tau = Num a1" "a1 < threshold" unfolding e by blast
  note w = walk_min_spec[of t0 ?yb ?N, folded e]
  from w have ge: "t0 \<le> ?tau" by simp
  with t0(1) have tau1: "1 \<le> ?tau" by simp
  \<comment> \<open>the entry after the dip\<close>
  have "jlt (yget ?yb ?tau) (Num threshold)" using a1 by simp
  from below_running_sum_pos[OF ev tau1 lt this] have pos: "0 < running_sum buf ?tau" .
  with running_sum_mono[of ?tau "?tau + 1" buf] have pos2: "0 < running_sum buf (?tau + 1)" by simp
  from yget_Num_if_running_sum_pos(1)[OF ev _ inside pos2]
  obtain a2 where a2: "yget ?yb (?tau + 1) = Num a2" by auto
  from w inside have "\<not> jlt (yget ?yb (?tau + 1)) (yget ?yb ?tau)" by blast
  then have "\<not> jlt (Num a2) (Num a1)" unfolding a1(1) a2 .
  then have le: "a1 \<le> a2" by simp
  \<comment> \<open>the entry before the dip\<close>
  have "\<exists>a0. yget ?yb (?tau - 1) = Num a0 \<and> a1 < a0"
  proof (cases "?tau = t0")
    case False
    with ge have "t0 \<le> ?tau - 1 \<and> ?tau - 1 < ?tau" by simp
    with w have "jlt (yget ?yb (?tau - 1 + 1)) (yget ?yb (?tau - 1))" by blast
    moreover from ge False have "?tau - 1 + 1 = ?tau" by simp
    ultimately have "jlt (Num a1) (yget ?yb (?tau - 1))" by (simp add: a1)
    moreover from ge False t0(1) lt have "1 \<le> ?tau - 1" "2 * (?tau - 1) < ?N" by simp_all
    from yget_shape[OF ev this]
    have "yget ?yb (?tau - 1) = NaN \<or> (\<exists>a. yget ?yb (?tau - 1) = Num a \<and> 0 \<le> a)" .
    ultimately show ?thesis using jlt_from_Num_cases[of a1 "yget ?yb (?tau - 1)"] by auto
  next
    case True
    from t0(1) obtain t where t: "t0 = Suc t" "1 \<le> t" by (cases t0) auto
    have lt': "2 * t < ?N" using t0(2) t(1) by simp
    from t0(2,3) have "0 < running_sum buf t"
      unfolding t(1) by (intro below_prev_running_sum_pos[OF ev t(2)])
    from yget_Num_if_running_sum_pos(1)[OF ev t(2) lt' this]
    obtain a0 where a0: "yget ?yb t = Num a0" by auto
    have "threshold \<le> a0"
    proof (cases "t = 1")
      case True
      have "running_sum buf 1 = diff_loop buf 1 0 0" by (simp add: running_sum_def)
      with \<open>0 < running_sum buf t\<close> True have "0 < diff_loop buf 1 0 0" by simp
      with yget_running_sum[OF ev _ lt'] True have "yget ?yb t = Num 1"
        by (simp add: running_sum_def)
      with a0 show ?thesis by (simp add: threshold_def)
    next
      case False
      with t have "2 \<le> t \<and> t < t0" by simp
      with first have "\<not> jlt (yget ?yb t) (Num threshold)" by blast
      then show ?thesis by (simp add: a0)
    qed
    with a1(2) have "a1 < a0" by simp
    moreover have "?tau - 1 = t" using True t(1) by simp
    ultimately show ?thesis using a0 by simp
  qed
  moreover from ge t0(1) have "2 \<le> ?tau" by simp
  ultimately show ?thesis using a1(1) a2 le by blast
qed

lemma no_NaN_inside:
  assumes "even (length buf)"
    and "2 * (find_dip (yin_of buf) (length buf) 2 + 1) < length buf"
  shows "detectPitch buf rate = Null \<or> (\<exists>f. detectPitch buf rate = Freq f \<and> 60 \<le> f \<and> f \<le> 1500)"
proof -
  let ?yb = "yin_of buf" and ?N = "length buf"
  let ?tau = "find_dip ?yb ?N 2"
  from interpolation_inside[OF assms] obtain a0 a1 a2 where
    two: "2 \<le> ?tau" and
    v: "yget ?yb (?tau - 1) = Num a0" "yget ?yb ?tau = Num a1" "yget ?yb (?tau + 1) = Num a2"
    and o: "a1 < a0" "a1 \<le> a2" by blast
  let ?bt = "real ?tau + (a2 - a0) / (2 * (2 * a1 - a2 - a0))"
  have bt: "betterTau_of ?yb ?tau = Num ?bt" using v o by (rule betterTau_of_Num)
  from two have "2 \<le> real ?tau" by simp
  with shift_bounds(2)[OF o] have "?bt \<noteq> 0" by linarith
  then have "jdiv (Num rate) (betterTau_of ?yb ?tau) = Num (rate / ?bt)" by (simp add: bt)
  then have "detectPitch buf rate = Null \<or> detectPitch buf rate = in_range (Num (rate / ?bt))"
    by (simp add: detectPitch_def Let_def)
  with in_range_Num[of "rate / ?bt"] show ?thesis by auto
qed

lemma find_dip_le_half:
  assumes "even SIZE" and "4 \<le> SIZE"
  shows "2 * find_dip yb SIZE 2 \<le> SIZE"
proof (cases "\<exists>j. 2 \<le> j \<and> 2 * j < SIZE \<and> jlt (yget yb j) (Num threshold)")
  case False
  then have "\<forall>j. 2 \<le> j \<and> 2 * j < SIZE \<longrightarrow> \<not> jlt (yget yb j) (Num threshold)" by blast
  from find_dip_no_dip_even[OF assms this] show ?thesis by simp
next
  case True
  show ?thesis
  proof (rule ccontr)
    assume "\<not> 2 * find_dip yb SIZE 2 \<le> SIZE"
    then have big: "SIZE < 2 * find_dip yb SIZE 2" by simp
    have "\<not> jlt (yget yb j) (Num threshold)" if "2 \<le> j \<and> 2 * j < SIZE" for j
    proof
      assume b: "jlt (yget yb j) (Num threshold)"
      define P where "P i \<longleftrightarrow> 2 \<le> i \<and> 2 * i < SIZE \<and> jlt (yget yb i) (Num threshold)" for i
      define t0 where "t0 = (LEAST i. P i)"
      from that b have "P j" by (simp add: P_def)
      then have p: "P t0" unfolding t0_def by (rule LeastI)
      have "\<forall>i. 2 \<le> i \<and> i < t0 \<longrightarrow> \<not> jlt (yget yb i) (Num threshold)"
      proof (intro allI impI)
        fix i assume i: "2 \<le> i \<and> i < t0"
        then have "\<not> P i" unfolding t0_def using not_less_Least by blast
        moreover from i p have "2 * i < SIZE" by (simp add: P_def)
        ultimately show "\<not> jlt (yget yb i) (Num threshold)" using i by (simp add: P_def)
      qed
      with p have "find_dip yb SIZE 2 = walk_min yb SIZE t0"
        by (intro find_dip_found) (simp_all add: P_def)
      moreover from p have "2 * walk_min yb SIZE t0 < SIZE"
        by (intro walk_min_below_half) (simp add: P_def)
      ultimately show False using big by simp
    qed
    with True show False by blast
  qed
qed

lemma detectPitch_NaN_iff:
  assumes "even (length buf)" and "4 \<le> length buf"
    and "\<not> jlt (rms_of buf) (Num (1 / 100))"
  shows "detectPitch buf rate = FreqNaN
           \<longleftrightarrow> 2 * (find_dip (yin_of buf) (length buf) 2 + 1) = length buf"
proof
  assume "2 * (find_dip (yin_of buf) (length buf) 2 + 1) = length buf"
  with assms(3) show "detectPitch buf rate = FreqNaN" by (rule last_lag_NaN)
next
  assume nan: "detectPitch buf rate = FreqNaN"
  let ?tau = "find_dip (yin_of buf) (length buf) 2"
  show "2 * (?tau + 1) = length buf"
  proof (rule ccontr)
    assume ne: "2 * (?tau + 1) \<noteq> length buf"
    from find_dip_le_half[OF assms(1,2)] have le: "2 * ?tau \<le> length buf" .
    show False
    proof (cases "2 * ?tau = length buf")
      case True
      then have "detectPitch buf rate = Null" by (simp add: detectPitch_def Let_def)
      with nan show False by simp
    next
      case False
      with le have "2 * ?tau < length buf" by simp
      with assms(1) ne have "2 * (?tau + 1) < length buf" by (auto elim!: evenE)
      from no_NaN_inside[OF assms(1) this, of rate] nan show False by auto
    qed
  qed
qed

text \<open>The impulse train of period \<open>p\<close>: every lag below \<open>p\<close> has value 1, lag \<open>p\<close> has value 0.\<close>

lemma length_impulse_frame [simp]: "length (impulse_frame p) = 2 * p + 2"
  by (simp add: impulse_frame_def)

lemma nth_impulse_frame:
  "i < 2 * p + 2 \<Longrightarrow> impulse_frame p ! i = (if i = 0 \<or> i = p \<or> i = 2 * p then 1 else 0)"
  unfolding impulse_frame_def by (simp del: upt_Suc)

lemma sum_indicator: "(\<Sum>i = 0..<(n::nat). if i = a then (1::real) else 0) = (if a < n then 1 else 0)"
  by (subst sum.delta) auto

lemma impulse_sumsq:
  assumes "1 \<le> p"
  shows "sumsq_loop (impulse_frame p) 0 0 = 3"
proof -
  have "(\<Sum>k = 0..<2 * p + 2. impulse_frame p ! k * impulse_frame p ! k)
      = (\<Sum>k = 0..<2 * p + 2. (if k = 0 then (1::real) else 0) + (if k = p then 1 else 0)
            + (if k = 2 * p then 1 else 0))"
    using assms by (intro sum.cong refl) (auto simp: nth_impulse_frame)
  also have "\<dots> = 3"
    unfolding sum.distrib sum_indicator by simp
  finally show ?thesis by (simp add: sumsq_loop_sum)
qed

lemma impulse_d_below:
  assumes "1 \<le> t" and "t < p"
  shows "diff_loop (impulse_frame p) t 0 0 = 3"
proof -
  let ?b = "impulse_frame p"
  have "(\<Sum>k = 0..<p + 1. (?b ! k - ?b ! (k + t)) * (?b ! k - ?b ! (k + t)))
      = (\<Sum>k = 0..<p + 1. (if k = 0 then (1::real) else 0) + (if k = p then 1 else 0)
            + (if k = p - t then 1 else 0))"
  proof (intro sum.cong refl)
    fix k assume "k \<in> {0..<p + 1}"
    then have k: "k \<le> p" by simp
    then have "k < 2 * p + 2" "k + t < 2 * p + 2" using assms by simp_all
    then show "(?b ! k - ?b ! (k + t)) * (?b ! k - ?b ! (k + t))
        = (if k = 0 then (1::real) else 0) + (if k = p then 1 else 0) + (if k = p - t then 1 else 0)"
      using assms k by (auto simp: nth_impulse_frame)
  qed
  also have "\<dots> = 3"
    unfolding sum.distrib sum_indicator using assms by simp
  finally show ?thesis by (simp add: diff_loop_sum)
qed

lemma impulse_d_period:
  assumes "1 \<le> p"
  shows "diff_loop (impulse_frame p) p 0 0 = 0"
proof -
  let ?b = "impulse_frame p"
  have "(\<Sum>k = 0..<p + 1. (?b ! k - ?b ! (k + p)) * (?b ! k - ?b ! (k + p))) = (\<Sum>k = 0..<p + 1. (0::real))"
  proof (intro sum.cong refl)
    fix k assume "k \<in> {0..<p + 1}"
    then have k: "k \<le> p" by simp
    then have "k < 2 * p + 2" "k + p < 2 * p + 2" by simp_all
    then show "(?b ! k - ?b ! (k + p)) * (?b ! k - ?b ! (k + p)) = (0::real)"
      using assms k by (auto simp: nth_impulse_frame)
  qed
  then show ?thesis by (simp add: diff_loop_sum)
qed

lemma impulse_yin_below:
  assumes "1 \<le> t" and "t < p"
  shows "yget (yin_of (impulse_frame p)) t = Num 1"
proof -
  have "(\<Sum>j = 1..t. diff_loop (impulse_frame p) j 0 0) = (\<Sum>j = 1..t. (3::real))"
    using assms by (intro sum.cong refl) (simp add: impulse_d_below)
  also have "\<dots> = 3 * real t" by simp
  finally have s: "(\<Sum>j = 1..t. diff_loop (impulse_frame p) j 0 0) = 3 * real t" .
  have "yget (yin_of (impulse_frame p)) t =
      jdiv (Num (diff_loop (impulse_frame p) t 0 0 * real t))
        (Num (\<Sum>j = 1..t. diff_loop (impulse_frame p) j 0 0))"
    using assms by (intro yget_yin_of) simp_all
  also have "\<dots> = jdiv (Num (3 * real t)) (Num (3 * real t))"
    unfolding s impulse_d_below[OF assms] ..
  also have "\<dots> = Num 1" using assms by simp
  finally show ?thesis .
qed

lemma impulse_yin_period:
  assumes "2 \<le> p"
  shows "yget (yin_of (impulse_frame p)) p = Num 0"
proof -
  from assms obtain q where q: "p = Suc q" and q1: "1 \<le> q" by (cases p) auto
  have "(\<Sum>j = 1..q. diff_loop (impulse_frame p) j 0 0) = (\<Sum>j = 1..q. (3::real))"
    using q by (intro sum.cong refl) (simp add: impulse_d_below)
  also have "\<dots> = 3 * real q" by simp
  finally have "(\<Sum>j = 1..Suc q. diff_loop (impulse_frame p) j 0 0)
      = 3 * real q + diff_loop (impulse_frame p) (Suc q) 0 0" by simp
  also have "diff_loop (impulse_frame p) (Suc q) 0 0 = 0"
    using impulse_d_period[of p] assms by (simp add: q)
  finally have s: "(\<Sum>j = 1..p. diff_loop (impulse_frame p) j 0 0) = 3 * real q"
    by (simp add: q)
  have d: "diff_loop (impulse_frame p) p 0 0 = 0"
    using impulse_d_period[of p] assms by simp
  have "yget (yin_of (impulse_frame p)) p =
      jdiv (Num (diff_loop (impulse_frame p) p 0 0 * real p))
        (Num (\<Sum>j = 1..p. diff_loop (impulse_frame p) j 0 0))"
    using assms by (intro yget_yin_of) simp_all
  also have "\<dots> = jdiv (Num (0 * real p)) (Num (3 * real q))"
    unfolding s d ..
  also have "\<dots> = Num 0" using q1 by simp
  finally show ?thesis .
qed

lemma impulse_find_dip:
  assumes "2 \<le> p"
  shows "find_dip (yin_of (impulse_frame p)) (2 * p + 2) 2 = p"
proof -
  have "find_dip (yin_of (impulse_frame p)) (2 * p + 2) 2 = walk_min (yin_of (impulse_frame p)) (2 * p + 2) p"
  proof (rule find_dip_found)
    show "2 \<le> p" by (rule assms)
    show "2 * p < 2 * p + 2" by simp
    show "jlt (yget (yin_of (impulse_frame p)) p) (Num threshold)"
      using assms by (simp add: impulse_yin_period threshold_def)
    show "\<forall>j. 2 \<le> j \<and> j < p \<longrightarrow> \<not> jlt (yget (yin_of (impulse_frame p)) j) (Num threshold)"
      by (simp add: impulse_yin_below threshold_def)
  qed
  also have "\<dots> = p" by (subst walk_min.simps) simp
  finally show ?thesis .
qed

lemma impulse_detectPitch:
  assumes "2 \<le> p" and "2 * p + 2 \<le> 30000"
  shows "detectPitch (impulse_frame p) rate = FreqNaN"
proof (rule last_lag_NaN)
  have ne: "impulse_frame p \<noteq> []" by (simp add: impulse_frame_def)
  have "1 / 10000 \<le> 3 / real (2 * p + 2)"
    using assms(2) by (simp add: field_simps)
  then show "\<not> jlt (rms_of (impulse_frame p)) (Num (1 / 100))"
    using assms(1) by (simp add: rms_gate[OF ne] impulse_sumsq)
  show "2 * (find_dip (yin_of (impulse_frame p)) (length (impulse_frame p)) 2 + 1) = length (impulse_frame p)"
    unfolding length_impulse_frame impulse_find_dip[OF assms(1)] by simp
qed

text \<open>
  C4. The frame of 4096 samples with impulses at 0, 2047 and 4094 has its dip at lag 2047,
  the last entry of the buffer; the interpolation reads entry 2048, beyond the end, and
  the detector returns NaN.
\<close>

theorem detectPitch_returns_NaN:
  "detectPitch (impulse_frame 2047) 44100 = FreqNaN"
  by (rule impulse_detectPitch) simp_all

text \<open>The same on a frame of 8 samples, with its dip at lag 3 of a buffer of 4 entries.\<close>

lemma impulse_frame_3: "impulse_frame 3 = [1, 0, 0, 1, 0, 0, 1, 0]"
  by (simp add: impulse_frame_def upt_rec)

lemma detectPitch_8_samples_NaN: "detectPitch [1, 0, 0, 1, 0, 0, 1, 0] rate = FreqNaN"
  unfolding impulse_frame_3[symmetric] by (rule impulse_detectPitch) simp_all

section \<open>Properties of the tuning session\<close>

subsection \<open>One detection cycle\<close>

lemma detect_body_Freq:
  assumes "f \<noteq> 0"
  shows "centsHistoryRef (detect_body st (Freq f)) =
           (if length (centsHistoryRef st @ [cents (freqToNote f)]) > SMOOTHING_SIZE
            then tl (centsHistoryRef st @ [cents (freqToNote f)])
            else centsHistoryRef st @ [cents (freqToNote f)])"
    and "smoothedCents (detect_body st (Freq f)) =
           real_of_int (sum_list (centsHistoryRef (detect_body st (Freq f))))
             / real (length (centsHistoryRef (detect_body st (Freq f))))"
    and "noteInfo (detect_body st (Freq f)) = Some (freqToNote f)"
  using assms by (simp_all add: detect_body_def Let_def)

lemma detect_body_no_pitch:
  assumes "\<forall>f. freq = Freq f \<longrightarrow> f = 0"
  shows "detect_body st freq = st\<lparr>frequency := freq, noteInfo := None\<rparr>"
  using assms by (cases freq) (simp_all add: detect_body_def Let_def)

lemma length_history_detect_body:
  assumes "length (centsHistoryRef st) \<le> SMOOTHING_SIZE"
  shows "length (centsHistoryRef (detect_body st freq)) \<le> SMOOTHING_SIZE"
proof (cases "\<exists>f. freq = Freq f \<and> f \<noteq> 0")
  case True
  then obtain f where f: "freq = Freq f" "f \<noteq> 0" by blast
  show ?thesis unfolding f(1) detect_body_Freq(1)[OF f(2)] using assms by simp
next
  case False
  then have "\<forall>f. freq = Freq f \<longrightarrow> f = 0" by blast
  then show ?thesis using assms by (simp add: detect_body_no_pitch)
qed

text \<open>
  Only the start and the stop of a session empty the history: a request, a failed
  acquisition and a detection cycle leave a non-empty history non-empty.
\<close>

lemma history_kept_by_step:
  assumes "centsHistoryRef st \<noteq> []" and "ev = Request \<or> ev = Failed \<or> (\<exists>buf. ev = Frame buf)"
  shows "centsHistoryRef (step st ev) \<noteq> []"
proof -
  have body: "centsHistoryRef (detect_body st freq) \<noteq> []" for freq
  proof (cases "\<exists>f. freq = Freq f \<and> f \<noteq> 0")
    case True
    then obtain f where f: "freq = Freq f" "f \<noteq> 0" by blast
    from assms(1) obtain x xs where "centsHistoryRef st = x # xs" by (cases "centsHistoryRef st") auto
    then show ?thesis unfolding f(1) detect_body_Freq(1)[OF f(2)] by simp
  next
    case False
    then have "\<forall>f. freq = Freq f \<longrightarrow> f = 0" by blast
    then show ?thesis using assms(1) by (simp add: detect_body_no_pitch)
  qed
  from assms(2) show ?thesis
  proof (elim disjE exE)
    fix buf assume "ev = Frame buf"
    then show ?thesis using assms(1) body by (simp add: detect_def)
  qed (use assms(1) in \<open>simp_all add: startMic_requested_def startMic_failed_def\<close>)
qed

lemma length_history_step:
  assumes "length (centsHistoryRef st) \<le> SMOOTHING_SIZE"
  shows "length (centsHistoryRef (step st ev)) \<le> SMOOTHING_SIZE"
proof (cases ev)
  case (Frame buf)
  then show ?thesis using assms length_history_detect_body[OF assms]
    by (simp add: detect_def)
qed (use assms in \<open>simp_all add: startMic_requested_def startMic_acquired_def startMic_failed_def stopMic_def\<close>)

lemma length_history_run:
  "length (centsHistoryRef st) \<le> SMOOTHING_SIZE \<Longrightarrow>
   length (centsHistoryRef (run st evs)) \<le> SMOOTHING_SIZE"
  unfolding run_def by (induction evs arbitrary: st) (simp_all add: length_history_step)

lemma tl_append_full: "xs \<noteq> [] \<Longrightarrow> tl (xs @ [c]) = tl xs @ [c]"
  by (cases xs) simp_all

lemma detect_success:
  assumes "analyserRef st" and "bufferRef st" and "detectPitch buf (sampleRate st) = Freq f"
    and "length (centsHistoryRef st) \<le> SMOOTHING_SIZE"
  shows "centsHistoryRef (detect st buf) =
           (if length (centsHistoryRef st) < SMOOTHING_SIZE
            then centsHistoryRef st @ [cents (freqToNote f)]
            else tl (centsHistoryRef st) @ [cents (freqToNote f)])"
    and "smoothedCents (detect st buf) =
           real_of_int (sum_list (centsHistoryRef (detect st buf)))
             / real (length (centsHistoryRef (detect st buf)))"
proof -
  from detectPitch_Freq_band[OF assms(3)] have nz: "f \<noteq> 0" by auto
  have d: "detect st buf = detect_body st (Freq f)"
    using assms(1,2,3) by (simp add: detect_def)
  show "smoothedCents (detect st buf) =
           real_of_int (sum_list (centsHistoryRef (detect st buf)))
             / real (length (centsHistoryRef (detect st buf)))"
    unfolding d by (rule detect_body_Freq(2)[OF nz])
  show "centsHistoryRef (detect st buf) =
           (if length (centsHistoryRef st) < SMOOTHING_SIZE
            then centsHistoryRef st @ [cents (freqToNote f)]
            else tl (centsHistoryRef st) @ [cents (freqToNote f)])"
  proof (cases "length (centsHistoryRef st) < SMOOTHING_SIZE")
    case True
    then show ?thesis unfolding d detect_body_Freq(1)[OF nz] by simp
  next
    case False
    with assms(4) have "length (centsHistoryRef st) = SMOOTHING_SIZE" by simp
    moreover from this have "centsHistoryRef st \<noteq> []" by (auto simp: SMOOTHING_SIZE_def)
    ultimately show ?thesis unfolding d detect_body_Freq(1)[OF nz]
      by (simp add: tl_append_full)
  qed
qed

text \<open>
  C8. In every state that the session reaches, the cents history has at most 8 entries; a
  successful detection appends its cents value, dropping the oldest entry when there were
  8 already, and publishes the mean of the resulting history.
\<close>

theorem history_window:
  "(let st = run initial_meter evs
    in length (centsHistoryRef st) \<le> SMOOTHING_SIZE \<and>
       (\<forall>buf f. analyserRef st \<and> bufferRef st \<and> detectPitch buf (sampleRate st) = Freq f \<longrightarrow>
          centsHistoryRef (detect st buf) =
            (if length (centsHistoryRef st) < SMOOTHING_SIZE
             then centsHistoryRef st @ [cents (freqToNote f)]
             else tl (centsHistoryRef st) @ [cents (freqToNote f)]) \<and>
          length (centsHistoryRef (detect st buf)) \<le> SMOOTHING_SIZE \<and>
          smoothedCents (detect st buf) =
            real_of_int (sum_list (centsHistoryRef (detect st buf)))
              / real (length (centsHistoryRef (detect st buf)))))"
proof -
  let ?st = "run initial_meter evs"
  have inv: "length (centsHistoryRef ?st) \<le> SMOOTHING_SIZE"
    by (rule length_history_run) (simp add: initial_meter_def)
  have "length (centsHistoryRef (detect ?st buf)) \<le> SMOOTHING_SIZE" for buf
    using length_history_step[OF inv, of "Frame buf"] by simp
  with inv detect_success[OF _ _ _ inv] show ?thesis unfolding Let_def by blast
qed

theorem history_window_witness:
  "analyserRef (run initial_meter [Request, Acquired 3000]) \<and>
   bufferRef (run initial_meter [Request, Acquired 3000]) \<and>
   detectPitch [1, 0, 0, 1, 0, 0, 1, 0, 0, 1, 0, 0]
     (sampleRate (run initial_meter [Request, Acquired 3000])) = Freq (42000 / 41) \<and>
   centsHistoryRef (detect (run initial_meter [Request, Acquired 3000]) [1, 0, 0, 1, 0, 0, 1, 0, 0, 1, 0, 0])
     = [cents (freqToNote (42000 / 41))] \<and>
   smoothedCents (detect (run initial_meter [Request, Acquired 3000]) [1, 0, 0, 1, 0, 0, 1, 0, 0, 1, 0, 0])
     = real_of_int (cents (freqToNote (42000 / 41)))"
proof -
  let ?st = "run initial_meter [Request, Acquired 3000]"
  let ?A = "[1, 0, 0, 1, 0, 0, 1, 0, 0, 1, 0, 0 :: real]"
  have st: "?st = \<lparr> micState = Active, frequency = Null, noteInfo = None, smoothedCents = 0,
       analyserRef = True, bufferRef = True, sampleRate = 3000, centsHistoryRef = [] \<rparr>"
    by (simp add: run_def initial_meter_def startMic_requested_def startMic_acquired_def)
  have p: "detectPitch ?A (sampleRate ?st) = Freq (42000 / 41)"
    unfolding st by (simp add: detectPitch_period3)
  have a: "analyserRef ?st" and b: "bufferRef ?st" unfolding st by simp_all
  from history_window[of "[Request, Acquired 3000]"] a b p
  have "centsHistoryRef (detect ?st ?A) =
            (if length (centsHistoryRef ?st) < SMOOTHING_SIZE
             then centsHistoryRef ?st @ [cents (freqToNote (42000 / 41))]
             else tl (centsHistoryRef ?st) @ [cents (freqToNote (42000 / 41))]) \<and>
          length (centsHistoryRef (detect ?st ?A)) \<le> SMOOTHING_SIZE \<and>
          smoothedCents (detect ?st ?A) =
            real_of_int (sum_list (centsHistoryRef (detect ?st ?A)))
              / real (length (centsHistoryRef (detect ?st ?A)))"
    unfolding Let_def by blast
  moreover have "centsHistoryRef ?st = []" unfolding st by simp
  ultimately have "centsHistoryRef (detect ?st ?A) = [cents (freqToNote (42000 / 41))]"
    and "smoothedCents (detect ?st ?A) = real_of_int (cents (freqToNote (42000 / 41)))"
    by (simp_all add: SMOOTHING_SIZE_def)
  with a b p show ?thesis by simp
qed

text \<open>
  C1. In a cycle without a pitch (the detector returns \<open>null\<close>, or NaN) the session clears
  the published note and leaves the cents history and the smoothed cents as they were;
  the next successful detection publishes the mean of the history kept, extended by the
  new cents value (without its oldest entry when 8 were kept).
\<close>

theorem silent_cycle_keeps_history:
  assumes "st = run initial_meter evs"
    and "analyserRef st" and "bufferRef st"
    and "detectPitch silent (sampleRate st) \<in> {Null, FreqNaN}"
    and "detectPitch tonal (sampleRate st) = Freq f"
  shows "noteInfo (detect st silent) = None \<and>
         centsHistoryRef (detect st silent) = centsHistoryRef st \<and>
         smoothedCents (detect st silent) = smoothedCents st \<and>
         centsHistoryRef (detect (detect st silent) tonal) =
           (if length (centsHistoryRef st) < SMOOTHING_SIZE
            then centsHistoryRef st @ [cents (freqToNote f)]
            else tl (centsHistoryRef st) @ [cents (freqToNote f)]) \<and>
         smoothedCents (detect (detect st silent) tonal) =
           real_of_int (sum_list (centsHistoryRef (detect (detect st silent) tonal)))
             / real (length (centsHistoryRef (detect (detect st silent) tonal)))"
proof -
  let ?st' = "st\<lparr>frequency := detectPitch silent (sampleRate st), noteInfo := None\<rparr>"
  have "\<forall>f. detectPitch silent (sampleRate st) = Freq f \<longrightarrow> f = 0"
    using assms(4) by auto
  then have s: "detect st silent = ?st'"
    using assms(2,3) by (simp add: detect_def detect_body_no_pitch)
  have a: "analyserRef ?st'" and b: "bufferRef ?st'" using assms(2,3) by simp_all
  have p: "detectPitch tonal (sampleRate ?st') = Freq f" using assms(5) by simp
  have "length (centsHistoryRef st) \<le> SMOOTHING_SIZE"
    unfolding assms(1) by (rule length_history_run) (simp add: initial_meter_def)
  then have i: "length (centsHistoryRef ?st') \<le> SMOOTHING_SIZE" by simp
  from detect_success[OF a b p i] show ?thesis unfolding s by simp
qed

theorem silent_cycle_keeps_history_witness:
  "analyserRef (run initial_meter [Request, Acquired 3000, Frame [1, 0, 0, 1, 0, 0, 1, 0, 0, 1, 0, 0]]) \<and>
   bufferRef (run initial_meter [Request, Acquired 3000, Frame [1, 0, 0, 1, 0, 0, 1, 0, 0, 1, 0, 0]]) \<and>
   centsHistoryRef (run initial_meter [Request, Acquired 3000, Frame [1, 0, 0, 1, 0, 0, 1, 0, 0, 1, 0, 0]])
     = [cents (freqToNote (42000 / 41))] \<and>
   detectPitch [0, 0, 0, 0]
     (sampleRate (run initial_meter [Request, Acquired 3000, Frame [1, 0, 0, 1, 0, 0, 1, 0, 0, 1, 0, 0]])) = Null \<and>
   detectPitch [1, 0, 0, 1, 0, 0, 1, 0, 0, 1, 0, 0]
     (sampleRate (run initial_meter [Request, Acquired 3000, Frame [1, 0, 0, 1, 0, 0, 1, 0, 0, 1, 0, 0]]))
     = Freq (42000 / 41) \<and>
   centsHistoryRef
     (detect (run initial_meter [Request, Acquired 3000, Frame [1, 0, 0, 1, 0, 0, 1, 0, 0, 1, 0, 0]]) [0, 0, 0, 0])
     = [cents (freqToNote (42000 / 41))] \<and>
   centsHistoryRef
     (detect (detect (run initial_meter [Request, Acquired 3000, Frame [1, 0, 0, 1, 0, 0, 1, 0, 0, 1, 0, 0]])
        [0, 0, 0, 0]) [1, 0, 0, 1, 0, 0, 1, 0, 0, 1, 0, 0])
     = [cents (freqToNote (42000 / 41)), cents (freqToNote (42000 / 41))]"
proof -
  let ?A = "[1, 0, 0, 1, 0, 0, 1, 0, 0, 1, 0, 0 :: real]"
  let ?st = "run initial_meter [Request, Acquired 3000, Frame ?A]"
  have st: "?st = \<lparr> micState = Active, frequency = Freq (42000 / 41),
       noteInfo = Some (freqToNote (42000 / 41)),
       smoothedCents = real_of_int (cents (freqToNote (42000 / 41))),
       analyserRef = True, bufferRef = True, sampleRate = 3000,
       centsHistoryRef = [cents (freqToNote (42000 / 41))] \<rparr>"
    by (simp add: run_def initial_meter_def startMic_requested_def startMic_acquired_def
        detect_def detectPitch_period3 detect_body_def SMOOTHING_SIZE_def Let_def)
  have a: "analyserRef ?st" and b: "bufferRef ?st"
    and h: "centsHistoryRef ?st = [cents (freqToNote (42000 / 41))]"
    unfolding st by simp_all
  have z: "detectPitch [0, 0, 0, 0] (sampleRate ?st) = Null"
    by (rule gate_returns_Null) (simp add: rms_of_nonempty)
  then have z': "detectPitch [0, 0, 0, 0] (sampleRate ?st) \<in> {Null, FreqNaN}" by simp
  have p: "detectPitch ?A (sampleRate ?st) = Freq (42000 / 41)"
    unfolding st by (simp add: detectPitch_period3)
  from silent_cycle_keeps_history[OF refl a b z' p] a b h z p show ?thesis
    by (simp add: SMOOTHING_SIZE_def)
qed

text \<open>
  C1, as stated, fails. The session is started, a detection at 452.8 Hz (+50 cents) is
  published, then a cycle without pitch, then a detection at 440 Hz (0 cents): the history
  still holds 50 after the silent cycle, and the smoothed cents published with the last
  detection is 25, not the 0 of that frame alone.
\<close>

theorem silent_cycle_reset_counterexample:
  "centsHistoryRef
     (detect_body (detect_body (startMic_acquired (startMic_requested initial_meter) 44100)
        (Freq (2264 / 5))) Null) = [50] \<and>
   noteInfo
     (detect_body (detect_body (detect_body (startMic_acquired (startMic_requested initial_meter) 44100)
        (Freq (2264 / 5))) Null) (Freq 440)) = Some (freqToNote 440) \<and>
   cents (freqToNote 440) = 0 \<and>
   smoothedCents
     (detect_body (detect_body (detect_body (startMic_acquired (startMic_requested initial_meter) 44100)
        (Freq (2264 / 5))) Null) (Freq 440)) = 25"
proof -
  let ?s0 = "startMic_acquired (startMic_requested initial_meter) 44100"
  have h0: "centsHistoryRef ?s0 = []"
    by (simp add: startMic_acquired_def)
  have h1: "centsHistoryRef (detect_body ?s0 (Freq (2264 / 5))) = [50]"
    by (simp add: detect_body_Freq(1) h0 cents_4528 SMOOTHING_SIZE_def)
  have s2: "detect_body (detect_body ?s0 (Freq (2264 / 5))) Null
      = (detect_body ?s0 (Freq (2264 / 5)))\<lparr>frequency := Null, noteInfo := None\<rparr>"
    by (rule detect_body_no_pitch) simp
  have h2: "centsHistoryRef (detect_body (detect_body ?s0 (Freq (2264 / 5))) Null) = [50]"
    unfolding s2 using h1 by simp
  have c: "cents (freqToNote 440) = 0" by (simp add: freqToNote_440)
  have h3: "centsHistoryRef (detect_body (detect_body (detect_body ?s0 (Freq (2264 / 5))) Null) (Freq 440))
      = [50, 0]"
    by (simp add: detect_body_Freq(1) h2 c SMOOTHING_SIZE_def)
  have "smoothedCents (detect_body (detect_body (detect_body ?s0 (Freq (2264 / 5))) Null) (Freq 440)) = 25"
    by (subst detect_body_Freq(2)) (simp_all add: h3)
  moreover have "noteInfo (detect_body (detect_body (detect_body ?s0 (Freq (2264 / 5))) Null) (Freq 440))
      = Some (freqToNote 440)"
    by (simp add: detect_body_Freq(3))
  ultimately show ?thesis using h2 c by simp
qed

end
